theory Spec2Isabelle
  imports Main "HOL-Library.AList" "HOL-Library.Sublist"
begin

section \<open>Python values and exceptions\<close>

text \<open>
  The values that flow through the solver are the values Python's \<^verbatim>\<open>json\<close> module
  produces: \<^verbatim>\<open>None\<close>, booleans, integers, floats, strings, lists and dictionaries with
  string keys. A dictionary is an association list in insertion order with distinct
  keys. A float is kept as the literal it was read from; no arithmetic is done on it.
  Strings are sequences of code points below 256.
\<close>

datatype pyval =
    PNone
  | PBool bool
  | PInt int
  | PFloat string
  | PStr string
  | PList "pyval list"
  | PDict "(string \<times> pyval) list"

type_synonym pydict = "(string \<times> pyval) list"

text \<open>
  Exceptions derived from \<^verbatim>\<open>Exception\<close>. The argument is the key for a
  \<^verbatim>\<open>KeyError\<close> and the message otherwise. Signals that are not an
  \<^verbatim>\<open>Exception\<close> (cancellation of the coroutine, interpreter exit) are outside the
  model.
\<close>

datatype exn =
    KeyError string
  | IndexError string
  | TypeError string
  | AttributeError string
  | ValueError string
  | TimeoutError string
  | OtherError string

text \<open>\<^verbatim>\<open>str(e)\<close>: a \<^verbatim>\<open>KeyError\<close> prints the \<^verbatim>\<open>repr\<close> of its key
  (for a key without quotes or escapes: the key between single quotes), the other
  exceptions print their message.\<close>

fun exn_str :: "exn \<Rightarrow> string" where
  "exn_str (KeyError k) = [CHR 0x27] @ k @ [CHR 0x27]"
| "exn_str (TimeoutError m) = m"
| "exn_str (IndexError m) = m"
| "exn_str (TypeError m) = m"
| "exn_str (AttributeError m) = m"
| "exn_str (ValueError m) = m"
| "exn_str (OtherError m) = m"

text \<open>A float literal is zero when its mantissa has no digit but \<^verbatim>\<open>0\<close>;
  \<^verbatim>\<open>NaN\<close> and the infinities are not zero. (A literal that underflows to zero in
  binary64 is outside the model.)\<close>

definition float_nonzero :: "string \<Rightarrow> bool" where
  "float_nonzero l =
     (l = ''NaN'' \<or> l = ''Infinity'' \<or> l = ''-Infinity'' \<or>
      list_ex (\<lambda>c. c \<in> set ''123456789'')
        (takeWhile (\<lambda>c. c \<noteq> CHR ''e'' \<and> c \<noteq> CHR ''E'') l))"

text \<open>Python truthiness (\<^verbatim>\<open>bool(v)\<close>, as tested by \<^verbatim>\<open>if v\<close> and \<^verbatim>\<open>not v\<close>).\<close>

fun truthy :: "pyval \<Rightarrow> bool" where
  "truthy PNone = False"
| "truthy (PBool b) = b"
| "truthy (PInt i) = (i \<noteq> 0)"
| "truthy (PFloat l) = float_nonzero l"
| "truthy (PStr s) = (s \<noteq> [])"
| "truthy (PList xs) = (xs \<noteq> [])"
| "truthy (PDict d) = (d \<noteq> [])"

text \<open>\<^verbatim>\<open>type(v).__name__\<close>\<close>

fun type_name :: "pyval \<Rightarrow> string" where
  "type_name PNone = ''NoneType''"
| "type_name (PBool b) = ''bool''"
| "type_name (PInt i) = ''int''"
| "type_name (PFloat l) = ''float''"
| "type_name (PStr s) = ''str''"
| "type_name (PList xs) = ''list''"
| "type_name (PDict d) = ''dict''"

text \<open>The exception of \<^verbatim>\<open>v.name\<close> for a value without that attribute.\<close>

definition no_attribute :: "pyval \<Rightarrow> string \<Rightarrow> exn" where
  "no_attribute v name =
     AttributeError ([CHR 0x27] @ type_name v @ [CHR 0x27] @ '' object has no attribute ''
                     @ [CHR 0x27] @ name @ [CHR 0x27])"

text \<open>\<^verbatim>\<open>d.get(k)\<close> on a dictionary: the value, or \<^verbatim>\<open>None\<close>.\<close>

definition dict_get :: "pydict \<Rightarrow> string \<Rightarrow> pyval" where
  "dict_get d k = (case map_of d k of None \<Rightarrow> PNone | Some v \<Rightarrow> v)"

text \<open>\<^verbatim>\<open>d[k]\<close> on a dictionary: the value, or \<^verbatim>\<open>KeyError\<close>.\<close>

definition dict_item :: "pydict \<Rightarrow> string \<Rightarrow> exn + pyval" where
  "dict_item d k = (case map_of d k of None \<Rightarrow> Inl (KeyError k) | Some v \<Rightarrow> Inr v)"


section \<open>Strings and the regular expressions of the source\<close>

definition code :: "char \<Rightarrow> nat" where
  "code c = of_char c"

text \<open>\<^verbatim>\<open>str.isspace\<close> on one code point below 256; the class \<^verbatim>\<open>\s\<close> of \<^verbatim>\<open>re\<close>
  on a \<^verbatim>\<open>str\<close> pattern is the same set.\<close>

definition is_space :: "char \<Rightarrow> bool" where
  "is_space c = (let n = code c in
     (9 \<le> n \<and> n \<le> 13) \<or> (28 \<le> n \<and> n \<le> 32) \<or> n = 0x85 \<or> n = 0xA0)"

definition is_digit :: "char \<Rightarrow> bool" where
  "is_digit c = (let n = code c in 48 \<le> n \<and> n \<le> 57)"

definition is_alpha :: "char \<Rightarrow> bool" where
  "is_alpha c = (let n = code c in (65 \<le> n \<and> n \<le> 90) \<or> (97 \<le> n \<and> n \<le> 122))"

text \<open>\<^verbatim>\<open>s.strip()\<close>\<close>

definition strip :: "string \<Rightarrow> string" where
  "strip s = rev (dropWhile is_space (rev (dropWhile is_space s)))"

text \<open>\<^verbatim>\<open>s.lower()\<close> on code points below 256: the letters A to Z, and the
  capital letters of Latin-1 (U+00C0 to U+00DE without the multiplication sign).\<close>

definition lower_char :: "char \<Rightarrow> char" where
  "lower_char c = (let n = code c in
     if (65 \<le> n \<and> n \<le> 90) \<or> (0xC0 \<le> n \<and> n \<le> 0xDE \<and> n \<noteq> 0xD7)
     then char_of (n + 32) else c)"

definition lower :: "string \<Rightarrow> string" where
  "lower s = map lower_char s"

text \<open>\<^verbatim>\<open>s.startswith(p)\<close> and \<^verbatim>\<open>sub in s\<close>\<close>

definition startswith :: "string \<Rightarrow> string \<Rightarrow> bool" where
  "startswith s p = (take (length p) s = p)"

fun contains :: "string \<Rightarrow> string \<Rightarrow> bool" where
  "contains sub [] = (sub = [])"
| "contains sub (c # cs) = (startswith (c # cs) sub \<or> contains sub cs)"

text \<open>
  A pattern is given by its matcher: applied to the text from some position on, it
  returns what the match yields (the group for \<^verbatim>\<open>findall\<close>, the replacement for
  \<^verbatim>\<open>sub\<close>) and the length of the match, or \<open>None\<close>. All patterns of the source
  match at least one character. \<^verbatim>\<open>re.findall\<close> and \<^verbatim>\<open>re.sub\<close> scan from left to
  right, take the match at the leftmost position and go on behind it.
\<close>

type_synonym matcher = "string \<Rightarrow> (string \<times> nat) option"

fun re_findall :: "matcher \<Rightarrow> string \<Rightarrow> string list" where
  "re_findall m [] = []"
| "re_findall m (c # cs) =
     (case m (c # cs) of
        Some (g, n) \<Rightarrow> g # re_findall m (drop (n - 1) cs)
      | None \<Rightarrow> re_findall m cs)"

fun re_sub :: "matcher \<Rightarrow> string \<Rightarrow> string" where
  "re_sub m [] = []"
| "re_sub m (c # cs) =
     (case m (c # cs) of
        Some (r, n) \<Rightarrow> r @ re_sub m (drop (n - 1) cs)
      | None \<Rightarrow> c # re_sub m cs)"

definition is_quote :: "char \<Rightarrow> bool" where
  "is_quote c = (c = CHR 0x22 \<or> c = CHR 0x27)"

text \<open>The pattern \<^verbatim>\<open>action=["'](.*?)["']\<close>: the group is the shortest run of
  characters other than a newline that a quote follows.\<close>

definition match_action :: matcher where
  "match_action s =
     (if startswith s ''action='' then
        (case drop 7 s of
           [] \<Rightarrow> None
         | q # t \<Rightarrow>
             if is_quote q then
               (let g = takeWhile (\<lambda>c. \<not> is_quote c \<and> c \<noteq> CHR 0x0A) t in
                case drop (length g) t of
                  [] \<Rightarrow> None
                | q' # _ \<Rightarrow> if is_quote q' then Some (g, 8 + length g + 1) else None)
             else None)
      else None)"

text \<open>The class \<^verbatim>\<open>[A-Za-z0-9\.\-:/\?\&_=%]\<close>\<close>

definition is_url_char :: "char \<Rightarrow> bool" where
  "is_url_char c = (is_alpha c \<or> is_digit c \<or> c \<in> set ''.-:/?&_=%'')"

text \<open>The greedy \<^verbatim>\<open>[A-Za-z0-9\.\-:/\?\&_=%]+\<close> in front of \<^verbatim>\<open>submit\<close>: the greatest
  \<open>k \<ge> 1\<close> such that the first \<open>k\<close> characters are in the class and
  \<^verbatim>\<open>submit\<close> follows them.\<close>

fun submit_offset :: "string \<Rightarrow> nat option" where
  "submit_offset [] = None"
| "submit_offset (c # cs) =
     (if is_url_char c then
        (case submit_offset cs of
           Some k \<Rightarrow> Some (Suc k)
         | None \<Rightarrow> if startswith cs ''submit'' then Some 1 else None)
      else None)"

text \<open>The pattern \<^verbatim>\<open>([A-Za-z0-9\.\-:/\?\&_=%]+submit[^\s\"']*)\<close>\<close>

definition match_submit :: matcher where
  "match_submit s =
     (case submit_offset s of
        None \<Rightarrow> None
      | Some k \<Rightarrow>
          (let tail = takeWhile (\<lambda>c. \<not> is_space c \<and> \<not> is_quote c) (drop (k + 6) s)
           in Some (take (k + 6) s @ tail, k + 6 + length tail)))"

section \<open>\<^verbatim>\<open>json.loads\<close>\<close>

text \<open>
  The decoder of Python's \<^verbatim>\<open>json\<close> module on a \<^verbatim>\<open>str\<close>, as a lexer followed by a
  pushdown recogniser that builds the value. It accepts the JSON grammar of the module:
  white space (space, tab, newline, carriage return) between tokens; strings in double
  quotes with the escapes \<^verbatim>\<open>\" \\ \/ \b \f \n \r \t \uXXXX\<close> and no raw control
  character; numbers \<^verbatim>\<open>-?(0|[1-9][0-9]*)(\.[0-9]+)?([eE][-+]?[0-9]+)?\<close>, an
  \<^verbatim>\<open>int\<close> without fraction and exponent and a \<^verbatim>\<open>float\<close> otherwise; \<^verbatim>\<open>null\<close>,
  \<^verbatim>\<open>true\<close>, \<^verbatim>\<open>false\<close>, \<^verbatim>\<open>NaN\<close>, \<^verbatim>\<open>Infinity\<close>, \<^verbatim>\<open>-Infinity\<close>; arrays;
  objects, where of two equal keys the later value wins. \<open>None\<close> stands for the
  exception the decoder raises. Not modelled: an escape \<^verbatim>\<open>\uXXXX\<close> above U+00FF (the
  model has no such character and rejects the text), the interpreter's limits on
  nesting depth and on the digits of an integer.
\<close>

datatype token = TLBrace | TRBrace | TLBrack | TRBrack | TComma | TColon | TVal pyval

definition hex_val :: "char \<Rightarrow> nat option" where
  "hex_val c = (let n = code c in
     if 48 \<le> n \<and> n \<le> 57 then Some (n - 48)
     else if 65 \<le> n \<and> n \<le> 70 then Some (n - 55)
     else if 97 \<le> n \<and> n \<le> 102 then Some (n - 87)
     else None)"

definition hex4 :: "string \<Rightarrow> nat option" where
  "hex4 s =
     (case map hex_val (take 4 s) of
        [Some a, Some b, Some c, Some d] \<Rightarrow> Some (((a * 16 + b) * 16 + c) * 16 + d)
      | _ \<Rightarrow> None)"

definition unescape :: "char \<Rightarrow> char option" where
  "unescape e =
     (if e = CHR 0x22 \<or> e = CHR 0x5C \<or> e = CHR ''/'' then Some e
      else if e = CHR ''b'' then Some (CHR 0x08)
      else if e = CHR ''f'' then Some (CHR 0x0C)
      else if e = CHR ''n'' then Some (CHR 0x0A)
      else if e = CHR ''r'' then Some (CHR 0x0D)
      else if e = CHR ''t'' then Some (CHR 0x09)
      else None)"

text \<open>The text behind an opening quote: the decoded string and the number of
  characters read, the closing quote included.\<close>

fun scanstring :: "string \<Rightarrow> (string \<times> nat) option" where
  "scanstring [] = None"
| "scanstring (c # cs) =
     (if c = CHR 0x22 then Some ([], 1)
      else if c = CHR 0x5C then
        (case cs of
           [] \<Rightarrow> None
         | e # cs' \<Rightarrow>
             if e = CHR ''u'' then
               (case hex4 cs' of
                  None \<Rightarrow> None
                | Some n \<Rightarrow>
                    if n < 256 then
                      map_option (\<lambda>(s, k). (char_of n # s, k + 6)) (scanstring (drop 4 cs'))
                    else None)
             else
               (case unescape e of
                  None \<Rightarrow> None
                | Some ch \<Rightarrow> map_option (\<lambda>(s, k). (ch # s, k + 2)) (scanstring cs')))
      else if code c < 0x20 then None
      else map_option (\<lambda>(s, k). (c # s, k + 1)) (scanstring cs))"

definition digits_val :: "string \<Rightarrow> int" where
  "digits_val ds = foldl (\<lambda>a c. 10 * a + int (code c - 48)) 0 ds"

text \<open>The number at the head of the text: its value and its length.\<close>

definition match_number :: "string \<Rightarrow> (pyval \<times> nat) option" where
  "match_number s =
     (let neg = startswith s ''-'';
          s1 = (if neg then drop 1 s else s);
          ds = takeWhile is_digit s1
      in if ds = [] then None
         else
           (let ip = (if startswith ds ''0'' then ''0'' else ds);
                r1 = drop (length ip) s1;
                fd = takeWhile is_digit (drop 1 r1);
                frac = (if startswith r1 ''.'' \<and> fd \<noteq> [] then CHR ''.'' # fd else []);
                r2 = drop (length frac) r1;
                sg = (if startswith (drop 1 r2) ''+'' \<or> startswith (drop 1 r2) ''-''
                      then take 1 (drop 1 r2) else []);
                ed = takeWhile is_digit (drop (1 + length sg) r2);
                ex = (if (startswith r2 ''e'' \<or> startswith r2 ''E'') \<and> ed \<noteq> []
                      then take 1 r2 @ sg @ ed else []);
                lexeme = (if neg then ''-'' else []) @ ip @ frac @ ex
            in Some (if frac = [] \<and> ex = []
                     then PInt (if neg then - digits_val ip else digits_val ip)
                     else PFloat lexeme,
                     length lexeme)))"

definition is_json_ws :: "char \<Rightarrow> bool" where
  "is_json_ws c = (c = CHR '' '' \<or> c = CHR 0x09 \<or> c = CHR 0x0A \<or> c = CHR 0x0D)"

fun lex :: "string \<Rightarrow> token list option" where
  "lex [] = Some []"
| "lex (c # cs) =
     (if is_json_ws c then lex cs
      else if c = CHR ''{'' then map_option ((#) TLBrace) (lex cs)
      else if c = CHR ''}'' then map_option ((#) TRBrace) (lex cs)
      else if c = CHR ''['' then map_option ((#) TLBrack) (lex cs)
      else if c = CHR '']'' then map_option ((#) TRBrack) (lex cs)
      else if c = CHR '','' then map_option ((#) TComma) (lex cs)
      else if c = CHR '':'' then map_option ((#) TColon) (lex cs)
      else if c = CHR 0x22 then
        (case scanstring cs of
           None \<Rightarrow> None
         | Some (s, n) \<Rightarrow> map_option ((#) (TVal (PStr s))) (lex (drop n cs)))
      else if startswith (c # cs) ''null'' then map_option ((#) (TVal PNone)) (lex (drop 3 cs))
      else if startswith (c # cs) ''true'' then
        map_option ((#) (TVal (PBool True))) (lex (drop 3 cs))
      else if startswith (c # cs) ''false'' then
        map_option ((#) (TVal (PBool False))) (lex (drop 4 cs))
      else
        (case match_number (c # cs) of
           Some (v, n) \<Rightarrow> map_option ((#) (TVal v)) (lex (drop (n - 1) cs))
         | None \<Rightarrow>
             if startswith (c # cs) ''NaN'' then
               map_option ((#) (TVal (PFloat ''NaN''))) (lex (drop 2 cs))
             else if startswith (c # cs) ''Infinity'' then
               map_option ((#) (TVal (PFloat ''Infinity''))) (lex (drop 7 cs))
             else if startswith (c # cs) ''-Infinity'' then
               map_option ((#) (TVal (PFloat ''-Infinity''))) (lex (drop 8 cs))
             else None))"

text \<open>\<^verbatim>\<open>dict(pairs)\<close>: a key keeps the place of its first occurrence and the value of
  its last.\<close>

definition py_dict :: "(string \<times> pyval) list \<Rightarrow> pydict" where
  "py_dict pairs = foldl (\<lambda>d (k, v). AList.update k v d) [] pairs"

text \<open>The containers that are open, innermost first: an array with its elements so far,
  an object with its pairs so far, an object with a key whose value is being read.\<close>

datatype frame =
    InArr "pyval list"
  | InObj "(string \<times> pyval) list"
  | InKey "(string \<times> pyval) list" string

text \<open>What may come next: a value; a value or \<^verbatim>\<open>]\<close> (behind \<^verbatim>\<open>[\<close>); a key or
  \<^verbatim>\<open>}\<close> (behind \<^verbatim>\<open>{\<close>); a key (behind a comma in an object); a colon; a comma or the
  closing bracket; nothing, the document being complete.\<close>

datatype expect = Val | ValOrEnd | KeyOrEnd | Key | Colon | Sep | Done pyval

definition complete :: "pyval \<Rightarrow> frame list \<Rightarrow> (expect \<times> frame list) option" where
  "complete v st =
     (case st of
        [] \<Rightarrow> Some (Done v, [])
      | InArr vs # st' \<Rightarrow> Some (Sep, InArr (vs @ [v]) # st')
      | InKey ps k # st' \<Rightarrow> Some (Sep, InObj (ps @ [(k, v)]) # st')
      | InObj ps # st' \<Rightarrow> None)"

definition close_array :: "frame list \<Rightarrow> (expect \<times> frame list) option" where
  "close_array st = (case st of InArr vs # st' \<Rightarrow> complete (PList vs) st' | _ \<Rightarrow> None)"

definition close_object :: "frame list \<Rightarrow> (expect \<times> frame list) option" where
  "close_object st =
     (case st of InObj ps # st' \<Rightarrow> complete (PDict (py_dict ps)) st' | _ \<Rightarrow> None)"

definition open_key :: "string \<Rightarrow> frame list \<Rightarrow> (expect \<times> frame list) option" where
  "open_key k st = (case st of InObj ps # st' \<Rightarrow> Some (Colon, InKey ps k # st') | _ \<Rightarrow> None)"

definition after_comma :: "frame list \<Rightarrow> (expect \<times> frame list) option" where
  "after_comma st =
     (case st of
        InArr vs # st' \<Rightarrow> Some (Val, st)
      | InObj ps # st' \<Rightarrow> Some (Key, st)
      | _ \<Rightarrow> None)"

definition value_token :: "token \<Rightarrow> frame list \<Rightarrow> (expect \<times> frame list) option" where
  "value_token t st =
     (case t of
        TVal v \<Rightarrow> complete v st
      | TLBrack \<Rightarrow> Some (ValOrEnd, InArr [] # st)
      | TLBrace \<Rightarrow> Some (KeyOrEnd, InObj [] # st)
      | _ \<Rightarrow> None)"

fun parse_step :: "expect \<Rightarrow> frame list \<Rightarrow> token \<Rightarrow> (expect \<times> frame list) option" where
  "parse_step Val st t = value_token t st"
| "parse_step ValOrEnd st t = (if t = TRBrack then close_array st else value_token t st)"
| "parse_step KeyOrEnd st t =
     (case t of TVal (PStr k) \<Rightarrow> open_key k st | TRBrace \<Rightarrow> close_object st | _ \<Rightarrow> None)"
| "parse_step Key st t = (case t of TVal (PStr k) \<Rightarrow> open_key k st | _ \<Rightarrow> None)"
| "parse_step Colon st t = (if t = TColon then Some (Val, st) else None)"
| "parse_step Sep st t =
     (case t of
        TComma \<Rightarrow> after_comma st
      | TRBrack \<Rightarrow> close_array st
      | TRBrace \<Rightarrow> close_object st
      | _ \<Rightarrow> None)"
| "parse_step (Done v) st t = None"

fun parse_tokens :: "expect \<Rightarrow> frame list \<Rightarrow> token list \<Rightarrow> pyval option" where
  "parse_tokens e st [] = (case (e, st) of (Done v, []) \<Rightarrow> Some v | _ \<Rightarrow> None)"
| "parse_tokens e st (t # ts) =
     (case parse_step e st t of None \<Rightarrow> None | Some (e', st') \<Rightarrow> parse_tokens e' st' ts)"

definition json_loads :: "string \<Rightarrow> pyval option" where
  "json_loads s = (case lex s of None \<Rightarrow> None | Some ts \<Rightarrow> parse_tokens Val [] ts)"

section \<open>Repairing the model's output: \<^verbatim>\<open>try_extract_json\<close>, \<^verbatim>\<open>repair_json_string\<close> (llm.py)\<close>

text \<open>\<^verbatim>\<open>re.search(r"\{[\s\S]*\}", text)\<close>: from the first \<^verbatim>\<open>{\<close> to the last \<^verbatim>\<open>}\<close>
  behind it.\<close>

definition search_braces :: "string \<Rightarrow> string option" where
  "search_braces text =
     (case dropWhile (\<lambda>c. c \<noteq> CHR ''{'') text of
        [] \<Rightarrow> None
      | b # t \<Rightarrow>
          if CHR ''}'' \<in> set t then Some (b # rev (dropWhile (\<lambda>c. c \<noteq> CHR ''}'') (rev t)))
          else None)"

text \<open>Both functions return \<^verbatim>\<open>None\<close> (here \<open>PNone\<close>) when the parse raises.\<close>

definition try_extract_json :: "string \<Rightarrow> pyval" where
  "try_extract_json text =
     (case search_braces text of
        Some m \<Rightarrow> (case json_loads m of Some v \<Rightarrow> v | None \<Rightarrow> PNone)
      | None \<Rightarrow> PNone)"

text \<open>The pattern \<^verbatim>\<open>[\x00-\x1F]+\<close>, replaced by the empty string.\<close>

definition match_ctrl :: matcher where
  "match_ctrl s =
     (let run = takeWhile (\<lambda>c. code c < 0x20) s
      in if run = [] then None else Some ([], length run))"

text \<open>The patterns \<^verbatim>\<open>,\s*}\<close> and \<^verbatim>\<open>,\s*]\<close>, replaced by the closing character.\<close>

definition match_trailing_comma :: "char \<Rightarrow> matcher" where
  "match_trailing_comma cl s =
     (if startswith s '','' then
        (let ws = takeWhile is_space (drop 1 s)
         in if startswith (drop (1 + length ws) s) [cl] then Some ([cl], length ws + 2)
            else None)
      else None)"

definition is_word :: "char \<Rightarrow> bool" where
  "is_word c = (is_alpha c \<or> is_digit c \<or> c = CHR ''_'')"

text \<open>The pattern \<^verbatim>\<open>(\{|,)\s*([A-Za-z0-9_]+)\s*:\<close>, replaced by \<^verbatim>\<open>\1 "\2":\<close>.\<close>

definition match_bare_key :: matcher where
  "match_bare_key s =
     (if startswith s ''{'' \<or> startswith s '','' then
        (let ws1 = takeWhile is_space (drop 1 s);
             r1 = drop (1 + length ws1) s;
             ident = takeWhile is_word r1;
             r2 = drop (length ident) r1;
             ws2 = takeWhile is_space r2
         in if ident \<noteq> [] \<and> startswith (drop (length ws2) r2) '':''
            then Some (take 1 s @ [CHR '' '', CHR 0x22] @ ident @ [CHR 0x22, CHR '':''],
                       1 + length ws1 + length ident + length ws2 + 1)
            else None)
      else None)"

text \<open>Lines 50 to 54 of \<^verbatim>\<open>repair_json_string\<close>: the text that is parsed.\<close>

definition fix_text :: "string \<Rightarrow> string" where
  "fix_text text =
     (let fixed = strip text;
          fixed = re_sub match_ctrl fixed;
          fixed = re_sub (match_trailing_comma (CHR ''}'')) fixed;
          fixed = re_sub (match_trailing_comma (CHR '']'')) fixed;
          fixed = re_sub match_bare_key fixed
      in fixed)"

definition repair_json_string :: "string \<Rightarrow> pyval" where
  "repair_json_string text =
     (case json_loads (fix_text text) of Some v \<Rightarrow> v | None \<Rightarrow> PNone)"

section \<open>Asking the model: \<^verbatim>\<open>call_aipipe_api\<close>, \<^verbatim>\<open>ask_llm_for_answer\<close>, \<^verbatim>\<open>llm_json\<close> (llm.py)\<close>

record message =
  role :: string
  content :: string

record request_body =
  model :: string
  messages :: "message list"
  max_tokens :: int
  temperature :: int

text \<open>
  The provider is the outside world. The state of the network is the list of the
  request bodies posted so far; \<open>post\<close> gives the outcome of the last request of such a
  list: the decoded JSON body of a successful answer, or the exception that
  \<^verbatim>\<open>client.post\<close>, \<^verbatim>\<open>raise_for_status\<close> or \<^verbatim>\<open>r.json()\<close> raises. The pause
  between two attempts is not modelled.
\<close>

type_synonym provider = "request_body list \<Rightarrow> exn + pyval"

text \<open>The loop \<^verbatim>\<open>for attempt in range(3)\<close> of \<^verbatim>\<open>call_aipipe_api\<close>; a loop that ran
  to its end would return \<^verbatim>\<open>None\<close>.\<close>

fun call_loop :: "provider \<Rightarrow> nat list \<Rightarrow> request_body \<Rightarrow> request_body list
    \<Rightarrow> (exn + pyval) \<times> request_body list" where
  "call_loop post [] payload sent = (Inr PNone, sent)"
| "call_loop post (attempt # rest) payload sent =
     (let sent' = sent @ [payload] in
      case post sent' of
        Inr v \<Rightarrow> (Inr v, sent')
      | Inl e \<Rightarrow> if attempt = 2 then (Inl e, sent') else call_loop post rest payload sent')"

definition call_aipipe_api :: "provider \<Rightarrow> request_body \<Rightarrow> request_body list
    \<Rightarrow> (exn + pyval) \<times> request_body list" where
  "call_aipipe_api post payload sent = call_loop post [0..<3] payload sent"

text \<open>\<^verbatim>\<open>"choices" in resp\<close>: key of a dictionary, element of a list, substring of a
  string; the other values are not containers.\<close>

fun py_in :: "string \<Rightarrow> pyval \<Rightarrow> exn + bool" where
  "py_in k (PDict d) = Inr (k \<in> set (map fst d))"
| "py_in k (PList xs) = Inr (PStr k \<in> set xs)"
| "py_in k (PStr s) = Inr (contains k s)"
| "py_in k v = Inl (TypeError ''argument is not iterable'')"

text \<open>\<^verbatim>\<open>v[k]\<close> for a string \<open>k\<close>: only a dictionary can be indexed so.\<close>

fun py_item :: "pyval \<Rightarrow> string \<Rightarrow> exn + pyval" where
  "py_item (PDict d) k = dict_item d k"
| "py_item v k = Inl (TypeError ''not subscriptable by a string'')"

text \<open>\<^verbatim>\<open>v[0]\<close>\<close>

fun py_first :: "pyval \<Rightarrow> exn + pyval" where
  "py_first (PList xs) = (case xs of [] \<Rightarrow> Inl (IndexError ''list index out of range'') | x # _ \<Rightarrow> Inr x)"
| "py_first (PStr s) = (case s of [] \<Rightarrow> Inl (IndexError ''string index out of range'') | c # _ \<Rightarrow> Inr (PStr [c]))"
| "py_first (PDict d) = Inl (KeyError ''0'')"
| "py_first v = Inl (TypeError ''not subscriptable'')"

text \<open>Sequencing of steps that may raise.\<close>

definition bind :: "exn + 'a \<Rightarrow> ('a \<Rightarrow> exn + 'b) \<Rightarrow> exn + 'b" where
  "bind m f = (case m of Inl e \<Rightarrow> Inl e | Inr v \<Rightarrow> f v)"

text \<open>\<^verbatim>\<open>try: body  except: handler(e)\<close>\<close>

definition try_except :: "exn + 'a \<Rightarrow> (exn \<Rightarrow> exn + 'a) \<Rightarrow> exn + 'a" where
  "try_except body handler = (case body of Inl e \<Rightarrow> handler e | Inr v \<Rightarrow> Inr v)"

text \<open>
  The body of the \<^verbatim>\<open>try\<close> of \<^verbatim>\<open>ask_llm_for_answer\<close> behind the call (lines 76 to 82):
  \<open>Inr (Some out)\<close> is \<^verbatim>\<open>return out\<close>, \<open>Inr None\<close> falls through, \<open>Inl e\<close> raises.
  \<^verbatim>\<open>json.dumps\<close> is a parameter.
\<close>

definition candidate :: "(pyval \<Rightarrow> string) \<Rightarrow> pyval \<Rightarrow> exn + string option" where
  "candidate dumps resp =
     bind (py_in ''choices'' resp) (\<lambda>has.
     bind (if has then
             bind (py_item resp ''choices'') (\<lambda>cs.
             bind (py_first cs) (\<lambda>c.
             bind (py_item c ''message'') (\<lambda>m. py_item m ''content'')))
           else Inr (PStr (dumps resp))) (\<lambda>out.
     case out of
       PStr s \<Rightarrow> Inr (if strip s \<noteq> [] then Some s else None)
     | _ \<Rightarrow> Inl (no_attribute out ''strip'')))"

definition nudge :: message where
  "nudge = \<lparr>role = ''user'', content = ''Return JSON now.''\<rparr>"

definition initial_body :: "string \<Rightarrow> request_body" where
  "initial_body prompt =
     \<lparr>model = ''gpt-4o'',
      messages = [\<lparr>role = ''system'', content = ''When asked for JSON, ALWAYS return valid JSON only.''\<rparr>,
                  \<lparr>role = ''user'', content = prompt\<rparr>],
      max_tokens = 1500,
      temperature = 0\<rparr>"

text \<open>One iteration of the loop of \<^verbatim>\<open>ask_llm_for_answer\<close>: the \<^verbatim>\<open>try\<close> with its
  \<^verbatim>\<open>except Exception\<close>, which prints and goes on. \<open>Some out\<close> is \<^verbatim>\<open>return out\<close>.\<close>

definition attempt_once :: "(pyval \<Rightarrow> string) \<Rightarrow> provider \<Rightarrow> request_body \<Rightarrow> request_body list
    \<Rightarrow> string option \<times> request_body list" where
  "attempt_once dumps post body sent =
     (case call_aipipe_api post body sent of
        (outcome, sent') \<Rightarrow>
          (case try_except (bind outcome (candidate dumps)) (\<lambda>e. Inr None) of
             Inr out \<Rightarrow> (out, sent')
           | Inl e \<Rightarrow> (None, sent')))"

text \<open>The loop \<^verbatim>\<open>for attempt in range(3)\<close> of \<^verbatim>\<open>ask_llm_for_answer\<close>, with the
  mutable \<^verbatim>\<open>body\<close> and the requests sent so far.\<close>

fun ask_loop :: "(pyval \<Rightarrow> string) \<Rightarrow> provider \<Rightarrow> nat list \<Rightarrow> request_body \<Rightarrow> request_body list
    \<Rightarrow> string \<times> request_body list" where
  "ask_loop dumps post [] body sent = (''{}'', sent)"
| "ask_loop dumps post (attempt # rest) body sent =
     (case attempt_once dumps post body sent of
        (Some out, sent') \<Rightarrow> (out, sent')
      | (None, sent') \<Rightarrow>
          ask_loop dumps post rest (body\<lparr>messages := messages body @ [nudge]\<rparr>) sent')"

definition ask_llm_for_answer :: "(pyval \<Rightarrow> string) \<Rightarrow> provider \<Rightarrow> string \<Rightarrow> request_body list
    \<Rightarrow> string \<times> request_body list" where
  "ask_llm_for_answer dumps post prompt sent =
     ask_loop dumps post [0..<3] (initial_body prompt) sent"

text \<open>What \<^verbatim>\<open>llm_json\<close> makes of the text it got (lines 93 to 107).\<close>

definition parse_answer :: "string \<Rightarrow> pyval" where
  "parse_answer text =
     (case json_loads text of
        Some v \<Rightarrow> v
      | None \<Rightarrow>
          (let extracted = try_extract_json text in
           if truthy extracted then extracted
           else
             (let repaired = repair_json_string text in
              if truthy repaired then repaired
              else PDict [])))"

definition llm_json :: "(pyval \<Rightarrow> string) \<Rightarrow> provider \<Rightarrow> string \<Rightarrow> request_body list
    \<Rightarrow> pyval \<times> request_body list" where
  "llm_json dumps post prompt sent =
     (case ask_llm_for_answer dumps post prompt sent of
        (text, sent') \<Rightarrow> (parse_answer text, sent'))"

section \<open>Finding the submission endpoint: \<^verbatim>\<open>normalize_url\<close>, \<^verbatim>\<open>find_submit\<close> (solver.py)\<close>

text \<open>
  \<^verbatim>\<open>urllib.parse.urljoin\<close> is a library function; it is a parameter here, applied to
  the base (the quiz URL, whatever value it is) and the reference, and returning the
  joined URL or the exception it raises.
\<close>

type_synonym urljoin = "pyval \<Rightarrow> string \<Rightarrow> exn + string"

definition normalize_url :: "urljoin \<Rightarrow> pyval \<Rightarrow> string \<Rightarrow> string option" where
  "normalize_url uj base raw =
     (if raw = [] then None
      else let raw' = strip raw in
        if startswith raw' ''http://'' \<or> startswith raw' ''https://'' then Some raw'
        else (case uj base raw' of Inr u \<Rightarrow> Some u | Inl e \<Rightarrow> None))"

text \<open>The first loop of \<^verbatim>\<open>find_submit\<close>: the first link whose lower-case form
  contains \<^verbatim>\<open>submit\<close>.\<close>

fun submit_link :: "string list \<Rightarrow> string option" where
  "submit_link [] = None"
| "submit_link (link # links) =
     (if contains ''submit'' (lower link) then Some link else submit_link links)"

text \<open>The second loop: the first \<^verbatim>\<open>action\<close> value that contains \<^verbatim>\<open>submit\<close>.\<close>

fun submit_action :: "string list \<Rightarrow> string option" where
  "submit_action [] = None"
| "submit_action (m # matches) =
     (if contains ''submit'' m then Some m else submit_action matches)"

definition find_submit :: "urljoin \<Rightarrow> string \<Rightarrow> string list \<Rightarrow> pyval \<Rightarrow> string option" where
  "find_submit uj html links base_url =
     (case submit_link links of
        Some link \<Rightarrow> normalize_url uj base_url link
      | None \<Rightarrow>
         (case submit_action (re_findall match_action html) of
            Some m \<Rightarrow> normalize_url uj base_url m
          | None \<Rightarrow>
             (case re_findall match_submit html of
                m # _ \<Rightarrow> normalize_url uj base_url m
              | [] \<Rightarrow> None)))"

section \<open>The chain driver: \<^verbatim>\<open>solve_quiz_chain\<close> (solver.py)\<close>

text \<open>
  The decision taken at the end of one iteration (solver.py, lines 272 to 283):
  \<^verbatim>\<open>
    next_url = None
    if "response" in step and isinstance(step["response"], dict):
        next_url = step["response"].get("url")
        if step["response"].get("correct") is False and not next_url:
            break
    if not next_url:
        break
    current = next_url
  \<close>
  \<open>None\<close> is \<^verbatim>\<open>break\<close>, \<open>Some u\<close> is the assignment \<^verbatim>\<open>current = u\<close>.
\<close>

definition advance :: "pydict \<Rightarrow> pyval option" where
  "advance step =
     (case map_of step ''response'' of
        Some (PDict r) \<Rightarrow>
          (let nu = dict_get r ''url'' in
           if dict_get r ''correct'' = PBool False \<and> \<not> truthy nu then None
           else if \<not> truthy nu then None
           else Some nu)
      | _ \<Rightarrow> None)"

text \<open>
  One call of \<^verbatim>\<open>solve_single\<close> is a call into the outside world (browser, model,
  quiz server). The driver sees only its outcome: a dictionary, or an exception. The
  parameter \<open>solve\<close> gives that outcome for the \<open>i\<close>-th call of the run (counted
  from 0) with the credentials and the URL it is given.
\<close>

type_synonym solver = "nat \<Rightarrow> string \<Rightarrow> string \<Rightarrow> pyval \<Rightarrow> exn + pydict"

text \<open>The entry appended to the trace: \<^verbatim>\<open>{"url": current, "result": step}\<close>.\<close>

definition quiz_step :: "pyval \<Rightarrow> pydict \<Rightarrow> pyval" where
  "quiz_step current step = PDict [(''url'', current), (''result'', PDict step)]"

text \<open>The \<^verbatim>\<open>try\<close>/\<^verbatim>\<open>except Exception\<close> around the call (lines 264 to 268).\<close>

definition attempt_step :: "solver \<Rightarrow> nat \<Rightarrow> string \<Rightarrow> string \<Rightarrow> pyval \<Rightarrow> pydict" where
  "attempt_step solve i email secret current =
     (case solve i email secret current of
        Inr step \<Rightarrow> step
      | Inl e \<Rightarrow> [(''error'', PStr (exn_str e))])"

text \<open>The loop \<^verbatim>\<open>for i in range(12)\<close>, over the list of indices still to run, with the
  loop variables \<^verbatim>\<open>current\<close> and \<^verbatim>\<open>steps\<close>.\<close>

fun chain_loop :: "solver \<Rightarrow> string \<Rightarrow> string \<Rightarrow> nat list \<Rightarrow> pyval \<Rightarrow> pyval list \<Rightarrow> pyval list" where
  "chain_loop solve email secret [] current steps = steps"
| "chain_loop solve email secret (i # rest) current steps =
     (let step = attempt_step solve i email secret current;
          steps' = steps @ [quiz_step current step]
      in case advance step of
           None \<Rightarrow> steps'
         | Some nu \<Rightarrow> chain_loop solve email secret rest nu steps')"

definition solve_quiz_chain :: "solver \<Rightarrow> string \<Rightarrow> string \<Rightarrow> pyval \<Rightarrow> string \<Rightarrow> pyval list" where
  "solve_quiz_chain solve email secret url owner_email =
     chain_loop solve email secret [0..<12] url []"

section \<open>One step: the submission stage of \<^verbatim>\<open>solve_single\<close> (solver.py)\<close>

text \<open>
  What the outside world does during one call of \<^verbatim>\<open>solve_single\<close>: the outcome of
  \<^verbatim>\<open>render_page\<close> (HTML, text, links, or an exception), the value that
  \<^verbatim>\<open>llm_json\<close> returns for the executor prompt, and the outcome of the \<^verbatim>\<open>POST\<close> to
  the submission URL: an exception, or a response with the outcome of \<^verbatim>\<open>r.json()\<close>
  and its \<^verbatim>\<open>r.text\<close>. The downloads and the planner call only feed the executor
  prompt, and their exceptions are caught where they arise.
\<close>

record step_io =
  io_page :: "exn + (string \<times> string \<times> string list)"
  io_result :: pyval
  io_post :: "exn + ((exn + pyval) \<times> string)"

text \<open>Lines 237 to 251, for an executor result that is a dictionary \<open>d\<close>.\<close>

definition submit_stage :: "string option \<Rightarrow> pydict \<Rightarrow> exn + ((exn + pyval) \<times> string) \<Rightarrow> exn + pydict" where
  "submit_stage submit_url d posted =
     (if submit_url \<noteq> None \<and> submit_url \<noteq> Some [] \<and> ''submit_payload'' \<in> set (map fst d) then
        try_except
          (bind posted (\<lambda>(rjson, rtext).
             try_except
               (bind rjson (\<lambda>resp.
                bind (dict_item d ''answer'') (\<lambda>a.
                  Inr [(''submitted'', PBool True), (''response'', resp), (''answer'', a)])))
               (\<lambda>e. bind (dict_item d ''answer'') (\<lambda>a.
                  Inr [(''submitted'', PBool True), (''response'', PStr rtext), (''answer'', a)]))))
          (\<lambda>e. bind (dict_item d ''answer'') (\<lambda>a.
             Inr [(''submitted'', PBool True), (''error'', PStr (exn_str e)), (''answer'', a)]))
      else Inr [(''submitted'', PBool False), (''result'', PDict d)])"

text \<open>\<^verbatim>\<open>solve_single\<close>: \<^verbatim>\<open>render_page\<close> may raise (line 147); \<^verbatim>\<open>result.get\<close>
  (line 230) raises when the executor result is not a dictionary.\<close>

definition solve_single :: "urljoin \<Rightarrow> (nat \<Rightarrow> pyval \<Rightarrow> step_io) \<Rightarrow> solver" where
  "solve_single uj io i email secret quiz_url =
     bind (io_page (io i quiz_url)) (\<lambda>(html, text, links).
       case io_result (io i quiz_url) of
         PDict d \<Rightarrow>
           submit_stage (find_submit uj html links quiz_url) d (io_post (io i quiz_url))
       | v \<Rightarrow> Inl (no_attribute v ''get''))"

section \<open>The service endpoint: \<^verbatim>\<open>quiz_endpoint\<close> (main.py)\<close>

record QuizPayload =
  email :: string
  secret :: string
  url :: string

datatype http_response =
    HTTPException nat string
  | JSONResponse nat pydict

text \<open>
  Whether Python reads a float literal as a finite number: the value of the literal,
  rounded to the nearest binary64, is finite exactly when it is below
  \<^verbatim>\<open>2^1024 - 2^970\<close>, the midpoint between the greatest binary64 and
  \<^verbatim>\<open>2^1024\<close>. The literal is a mantissa of digits (integer and fraction part)
  times a power of ten.
\<close>

definition float_finite :: "string \<Rightarrow> bool" where
  "float_finite l =
     (if l = ''NaN'' \<or> l = ''Infinity'' \<or> l = ''-Infinity'' then False
      else
        (let s = (if startswith l ''-'' then drop 1 l else l);
             ip = takeWhile is_digit s;
             r1 = drop (length ip) s;
             fd = (if startswith r1 ''.'' then takeWhile is_digit (drop 1 r1) else []);
             r2 = (if startswith r1 ''.'' then drop (1 + length fd) r1 else r1);
             minus = startswith (drop 1 r2) ''-'';
             signed = (minus \<or> startswith (drop 1 r2) ''+'');
             ed = takeWhile is_digit (drop (if signed then 2 else 1) r2);
             m = digits_val (ip @ fd);
             ex = (if minus then - digits_val ed else digits_val ed) - int (length fd)
         in if 0 \<le> ex then m * 10 ^ nat ex < 2 ^ 1024 - 2 ^ 970
            else m < (2 ^ 1024 - 2 ^ 970) * 10 ^ nat (- ex)))"

text \<open>
  \<^verbatim>\<open>JSONResponse(status_code, content)\<close> of Starlette serialises the content when
  it is built, with \<^verbatim>\<open>json.dumps(content, allow_nan=False, ...)\<close>: a float that is
  \<^verbatim>\<open>nan\<close> or infinite anywhere in the content raises \<^verbatim>\<open>ValueError\<close>. (The strings
  of the model are below U+0100, so encoding the text cannot fail.)
\<close>

fun json_compliant :: "pyval \<Rightarrow> bool" where
  "json_compliant (PFloat l) = float_finite l"
| "json_compliant (PList xs) = list_all json_compliant xs"
| "json_compliant (PDict d) = list_all json_compliant (map snd d)"
| "json_compliant v = True"

definition json_response :: "nat \<Rightarrow> pydict \<Rightarrow> exn + http_response" where
  "json_response status body =
     (if json_compliant (PDict body) then Inr (JSONResponse status body)
      else Inl (ValueError ''Out of range float values are not JSON compliant''))"







section \<open>Notions used to state the properties\<close>

text \<open>The URL with which the \<open>k\<close>-th iteration behind iteration \<open>a\<close> runs, when iteration
  \<open>a\<close> runs with \<open>cur\<close> (and \<open>PNone\<close> behind the end of the chain).\<close>

fun visited :: "solver \<Rightarrow> string \<Rightarrow> string \<Rightarrow> nat \<Rightarrow> pyval \<Rightarrow> nat \<Rightarrow> pyval" where
  "visited solve mail sec a cur 0 = cur"
| "visited solve mail sec a cur (Suc k) =
     (case advance (attempt_step solve a mail sec cur) of
        None \<Rightarrow> PNone
      | Some nu \<Rightarrow> visited solve mail sec (Suc a) nu k)"

text \<open>The three stages of the endpoint discovery as the specification words them: the
  candidates are the links that contain \<^verbatim>\<open>submit\<close> in any case, then the
  \<^verbatim>\<open>action\<close> values that contain \<^verbatim>\<open>submit\<close>, then the URL-like tokens around
  \<^verbatim>\<open>submit\<close>; the first candidate is resolved against the base.\<close>

definition find_submit_spec :: "urljoin \<Rightarrow> string \<Rightarrow> string list \<Rightarrow> pyval \<Rightarrow> string option" where
  "find_submit_spec uj html links base_url =
     (case filter (\<lambda>l. contains ''submit'' (lower l)) links
             @ filter (contains ''submit'') (re_findall match_action html)
             @ re_findall match_submit html of
        [] \<Rightarrow> None
      | m # _ \<Rightarrow> normalize_url uj base_url m)"

text \<open>\<open>w\<close> is the lower-case word \<open>v\<close> with some of its letters in upper case (an
  upper-case ASCII letter is 32 below its lower-case letter).\<close>

definition spells :: "string \<Rightarrow> string \<Rightarrow> bool" where
  "spells w v = list_all2 (\<lambda>c d. c = d \<or> code c + 32 = code d) w v"

text \<open>The request body of the \<open>k\<close>-th attempt (from 0) of one call of
  \<^verbatim>\<open>ask_llm_for_answer\<close>: the two opening messages and \<open>k\<close> times the reminder.\<close>

definition attempt_body :: "string \<Rightarrow> nat \<Rightarrow> request_body" where
  "attempt_body prompt k =
     (initial_body prompt)\<lparr>messages := messages (initial_body prompt) @ replicate k nudge\<rparr>"

subsection \<open>Scenarios\<close>

text \<open>A provider that answers every request with the same chat completion, and one that
  fails every request.\<close>

definition chat_completion :: "string \<Rightarrow> pyval" where
  "chat_completion text =
     PDict [(''choices'', PList [PDict [(''message'', PDict [(''content'', PStr text)])]])]"

definition answering :: "string \<Rightarrow> provider" where
  "answering text sent = Inr (chat_completion text)"

definition failing :: "exn \<Rightarrow> provider" where
  "failing e sent = Inl e"

text \<open>A stand-in for \<^verbatim>\<open>json.dumps\<close> in scenarios whose responses have the key
  \<^verbatim>\<open>choices\<close>, where it is not called.\<close>

definition dumps_unused :: "pyval \<Rightarrow> string" where
  "dumps_unused v = ''null''"

text \<open>A quiz whose every step has the same outcome.\<close>

definition every_step :: "exn + pydict \<Rightarrow> solver" where
  "every_step outcome i mail sec cur = outcome"

definition submitted :: "pydict \<Rightarrow> pydict" where
  "submitted response =
     [(''submitted'', PBool True), (''response'', PDict response), (''answer'', PInt 42)]"

text \<open>A stand-in for \<^verbatim>\<open>urljoin\<close> on an absolute reference, which it returns.\<close>

definition join_absolute :: urljoin where
  "join_absolute base ref = Inr ref"

text \<open>A step whose page links to a submission endpoint, whose executor result has a
  payload and no answer, and whose \<^verbatim>\<open>POST\<close> is answered with \<^verbatim>\<open>{"correct": true}\<close>.\<close>

definition no_answer_io :: "nat \<Rightarrow> pyval \<Rightarrow> step_io" where
  "no_answer_io i cur =
     \<lparr>io_page = Inr ([], [], [''/submit'']),
      io_result = PDict [(''submit_payload'', PDict [(''answer'', PInt 1)])],
      io_post = Inr (Inr (PDict [(''correct'', PBool True)]), ''{}'')\<rparr>"





section \<open>Properties of the chain driver\<close>

lemma advance_Some_iff:
  "advance step = Some nu \<longleftrightarrow>
     (\<exists>r. map_of step ''response'' = Some (PDict r) \<and> map_of r ''url'' = Some nu \<and> truthy nu)"
proof (cases "map_of step ''response''")
  case None
  then show ?thesis by (simp add: advance_def)
next
  case (Some v)
  show ?thesis
  proof (cases v)
    case (PDict r)
    show ?thesis
    proof (cases "map_of r ''url''")
      case None
      with Some PDict show ?thesis by (simp add: advance_def dict_get_def)
    next
      case (Some u)
      with \<open>map_of step ''response'' = Some v\<close> PDict show ?thesis
        by (auto simp: advance_def dict_get_def)
    qed
  qed (use Some in \<open>simp_all add: advance_def\<close>)
qed

lemma advance_error [simp]: "advance [(''error'', v)] = None"
  by (simp add: advance_def)

lemma chain_loop_go:
  "advance (attempt_step solve i mail sec cur) = Some nu \<Longrightarrow>
   chain_loop solve mail sec (i # rest) cur steps =
     chain_loop solve mail sec rest nu (steps @ [quiz_step cur (attempt_step solve i mail sec cur)])"
  by (simp add: Let_def)

lemma range12: "[0..<12] = 0 # [Suc 0..<12]"
  by (simp add: upt_conv_Cons)

lemma chain_loop_entries:
  "\<exists>more. chain_loop solve mail sec [a..<a+n] cur steps = steps @ more \<and>
     (0 < n \<longrightarrow> more \<noteq> []) \<and> length more \<le> n \<and>
     (\<forall>k<length more. more ! k =
        quiz_step (visited solve mail sec a cur k)
          (attempt_step solve (a + k) mail sec (visited solve mail sec a cur k)))"
proof (induction n arbitrary: a cur steps)
  case 0
  then show ?case by simp
next
  case (Suc n)
  let ?step = "attempt_step solve a mail sec cur"
  have up: "[a..<a + Suc n] = a # [Suc a..<Suc a + n]"
    by (simp add: upt_conv_Cons)
  show ?case
  proof (cases "advance ?step")
    case None
    then show ?thesis unfolding up by (simp add: Let_def)
  next
    case (Some nu)
    obtain more where m:
      "chain_loop solve mail sec [Suc a..<Suc a+n] nu (steps @ [quiz_step cur ?step]) = (steps @ [quiz_step cur ?step]) @ more"
      "length more \<le> n"
      "\<forall>k<length more. more ! k =
        quiz_step (visited solve mail sec (Suc a) nu k)
          (attempt_step solve (Suc a + k) mail sec (visited solve mail sec (Suc a) nu k))"
      using Suc.IH[of "Suc a" nu "steps @ [quiz_step cur ?step]"] by blast
    have "chain_loop solve mail sec [a..<a + Suc n] cur steps = steps @ (quiz_step cur ?step # more)"
      unfolding up using Some m(1) by (simp add: Let_def)
    moreover have "\<forall>k<length (quiz_step cur ?step # more). (quiz_step cur ?step # more) ! k =
        quiz_step (visited solve mail sec a cur k)
          (attempt_step solve (a + k) mail sec (visited solve mail sec a cur k))"
    proof (intro allI impI)
      fix k assume "k < length (quiz_step cur ?step # more)"
      then show "(quiz_step cur ?step # more) ! k =
        quiz_step (visited solve mail sec a cur k)
          (attempt_step solve (a + k) mail sec (visited solve mail sec a cur k))"
        using m(3) Some by (cases k) auto
    qed
    ultimately show ?thesis using m(2) by (intro exI[of _ "quiz_step cur ?step # more"]) simp
  qed
qed

lemma chain_loop_full:
  "(\<forall>i cur. a \<le> i \<and> i < a + n \<longrightarrow> advance (attempt_step solve i mail sec cur) \<noteq> None) \<Longrightarrow>
   length (chain_loop solve mail sec [a..<a+n] cur steps) = length steps + n"
proof (induction n arbitrary: a cur steps)
  case 0
  then show ?case by simp
next
  case (Suc n)
  have up: "[a..<a + Suc n] = a # [Suc a..<Suc a + n]"
    by (simp add: upt_conv_Cons)
  have "a \<le> a \<and> a < a + Suc n" by simp
  with Suc.prems have "advance (attempt_step solve a mail sec cur) \<noteq> None" by blast
  then obtain nu where nu: "advance (attempt_step solve a mail sec cur) = Some nu" by blast
  have "\<forall>i cur. Suc a \<le> i \<and> i < Suc a + n \<longrightarrow> advance (attempt_step solve i mail sec cur) \<noteq> None"
    using Suc.prems by simp
  from Suc.IH[OF this]
  have "length (chain_loop solve mail sec [Suc a..<Suc a + n] nu
          (steps @ [quiz_step cur (attempt_step solve a mail sec cur)])) = length steps + Suc n"
    by simp
  then show ?case
    unfolding up chain_loop_go[OF nu] .
qed

lemma chain_loop_stop':
  "attempt_step solve i mail sec cur = step \<Longrightarrow> advance step = None \<Longrightarrow>
   chain_loop solve mail sec (i # rest) cur steps = steps @ [quiz_step cur step]"
  by (simp add: Let_def)

lemma chain_loop_go':
  "attempt_step solve i mail sec cur = step \<Longrightarrow> advance step = Some nu \<Longrightarrow>
   chain_loop solve mail sec (i # rest) cur steps =
     chain_loop solve mail sec rest nu (steps @ [quiz_step cur step])"
  by (simp add: Let_def)

lemma attempt_step_Inr: "solve i mail sec cur = Inr step \<Longrightarrow> attempt_step solve i mail sec cur = step"
  by (simp add: attempt_step_def)

lemma attempt_step_Inl:
  "solve i mail sec cur = Inl e \<Longrightarrow> attempt_step solve i mail sec cur = [(''error'', PStr (exn_str e))]"
  by (simp add: attempt_step_def)

lemma advance_no_url:
  "map_of step ''response'' = Some (PDict r) \<Longrightarrow> map_of r ''url'' = None \<Longrightarrow> advance step = None"
  by (simp add: advance_def dict_get_def)

lemma advance_url:
  "map_of step ''response'' = Some (PDict r) \<Longrightarrow> map_of r ''url'' = Some nu \<Longrightarrow> truthy nu \<Longrightarrow>
   advance step = Some nu"
  by (simp add: advance_def dict_get_def)

lemma chain_second_entry:
  assumes "attempt_step solve 0 mail sec start = step" and "advance step = Some nu"
  shows "take 2 (solve_quiz_chain solve mail sec start owner) =
          [quiz_step start step, quiz_step nu (attempt_step solve 1 mail sec nu)]"
proof -
  obtain more where m:
     "chain_loop solve mail sec [1..<1+11] nu [quiz_step start step] = [quiz_step start step] @ more"
     "more \<noteq> []"
     "\<forall>k<length more. more ! k =
        quiz_step (visited solve mail sec 1 nu k)
          (attempt_step solve (1 + k) mail sec (visited solve mail sec 1 nu k))"
    using chain_loop_entries[of solve mail sec 1 11 nu "[quiz_step start step]"] by auto
  from m(2) obtain e more' where e: "more = e # more'" by (cases more) auto
  with m(3) have "e = quiz_step nu (attempt_step solve 1 mail sec nu)"
    by fastforce
  moreover have "solve_quiz_chain solve mail sec start owner =
      chain_loop solve mail sec [1..<1+11] nu [quiz_step start step]"
    unfolding solve_quiz_chain_def range12 using chain_loop_go'[OF assms, of "[Suc 0..<12]" "[]"] by simp
  ultimately show ?thesis using m(1) e by simp
qed

text \<open>
  Claim C2. A step whose response is a dictionary with \<^verbatim>\<open>correct\<close> false and no key
  \<^verbatim>\<open>url\<close> ends the chain: the iteration appends that step and returns, and when it is
  the first step the trace is that one entry. A step whose response has \<^verbatim>\<open>correct\<close>
  false and a \<^verbatim>\<open>url\<close> that is a non-empty string \<open>x\<close> is followed by an iteration
  with \<open>x\<close> as the current URL: the second entry of the trace is the step attempted at
  \<open>x\<close>. The loop goes on to a value \<open>nu\<close> exactly when the step has a \<^verbatim>\<open>response\<close>
  that is a dictionary whose key \<^verbatim>\<open>url\<close> holds the truthy value \<open>nu\<close>; every other
  shape gives no next URL.
\<close>
theorem chain_follows_response:
  "(solve 0 mail sec start = Inr step \<and> map_of step ''response'' = Some (PDict r) \<and>
      map_of r ''correct'' = Some (PBool False) \<and> map_of r ''url'' = None
    \<longrightarrow> solve_quiz_chain solve mail sec start owner = [quiz_step start step])
   \<and> (solve i mail sec cur = Inr step \<and> map_of step ''response'' = Some (PDict r) \<and>
      map_of r ''correct'' = Some (PBool False) \<and> map_of r ''url'' = None
    \<longrightarrow> chain_loop solve mail sec (i # rest) cur steps = steps @ [quiz_step cur step])
   \<and> (solve i mail sec cur = Inr step \<and> map_of step ''response'' = Some (PDict r) \<and>
      map_of r ''correct'' = Some (PBool False) \<and> map_of r ''url'' = Some (PStr x) \<and> x \<noteq> []
    \<longrightarrow> chain_loop solve mail sec (i # rest) cur steps =
          chain_loop solve mail sec rest (PStr x) (steps @ [quiz_step cur step]))
   \<and> (solve 0 mail sec start = Inr step \<and> map_of step ''response'' = Some (PDict r) \<and>
      map_of r ''correct'' = Some (PBool False) \<and> map_of r ''url'' = Some (PStr x) \<and> x \<noteq> []
    \<longrightarrow> take 2 (solve_quiz_chain solve mail sec start owner) =
          [quiz_step start step, quiz_step (PStr x) (attempt_step solve 1 mail sec (PStr x))])
   \<and> (advance step' = Some nu \<longleftrightarrow>
        (\<exists>r'. map_of step' ''response'' = Some (PDict r') \<and> map_of r' ''url'' = Some nu \<and> truthy nu))"
proof (intro conjI impI)
  assume h: "solve 0 mail sec start = Inr step \<and> map_of step ''response'' = Some (PDict r) \<and>
      map_of r ''correct'' = Some (PBool False) \<and> map_of r ''url'' = None"
  then have "chain_loop solve mail sec (0 # [Suc 0..<12]) start [] = [] @ [quiz_step start step]"
    by (intro chain_loop_stop' attempt_step_Inr advance_no_url[of step r]) simp_all
  then show "solve_quiz_chain solve mail sec start owner = [quiz_step start step]"
    unfolding solve_quiz_chain_def range12 by simp
next
  assume h: "solve i mail sec cur = Inr step \<and> map_of step ''response'' = Some (PDict r) \<and>
      map_of r ''correct'' = Some (PBool False) \<and> map_of r ''url'' = None"
  then show "chain_loop solve mail sec (i # rest) cur steps = steps @ [quiz_step cur step]"
    by (intro chain_loop_stop' attempt_step_Inr advance_no_url[of step r]) simp_all
next
  assume h: "solve i mail sec cur = Inr step \<and> map_of step ''response'' = Some (PDict r) \<and>
      map_of r ''correct'' = Some (PBool False) \<and> map_of r ''url'' = Some (PStr x) \<and> x \<noteq> []"
  then show "chain_loop solve mail sec (i # rest) cur steps =
          chain_loop solve mail sec rest (PStr x) (steps @ [quiz_step cur step])"
    by (intro chain_loop_go' attempt_step_Inr advance_url[of step r]) simp_all
next
  assume h: "solve 0 mail sec start = Inr step \<and> map_of step ''response'' = Some (PDict r) \<and>
      map_of r ''correct'' = Some (PBool False) \<and> map_of r ''url'' = Some (PStr x) \<and> x \<noteq> []"
  then show "take 2 (solve_quiz_chain solve mail sec start owner) =
          [quiz_step start step, quiz_step (PStr x) (attempt_step solve 1 mail sec (PStr x))]"
    by (intro chain_second_entry attempt_step_Inr advance_url[of step r]) simp_all
qed (rule advance_Some_iff)


theorem chain_follows_response_witness:
  "solve_quiz_chain (every_step (Inr (submitted [(''correct'', PBool False)])))
       ''m'' ''s'' (PStr ''http://q/1'') ''o''
     = [quiz_step (PStr ''http://q/1'') (submitted [(''correct'', PBool False)])]
   \<and> take 2 (solve_quiz_chain
         (every_step (Inr (submitted [(''correct'', PBool False), (''url'', PStr ''X'')])))
         ''m'' ''s'' (PStr ''http://q/1'') ''o'')
     = [quiz_step (PStr ''http://q/1'') (submitted [(''correct'', PBool False), (''url'', PStr ''X'')]),
        quiz_step (PStr ''X'') (submitted [(''correct'', PBool False), (''url'', PStr ''X'')])]
   \<and> advance (submitted [(''url'', PStr ''X'')]) = Some (PStr ''X'')"
  using
    chain_follows_response[where solve = "every_step (Inr (submitted [(''correct'', PBool False)]))"
      and mail = "''m''" and sec = "''s''" and start = "PStr ''http://q/1''" and owner = "''o''"
      and step = "submitted [(''correct'', PBool False)]" and r = "[(''correct'', PBool False)]"]
    chain_follows_response[where
      solve = "every_step (Inr (submitted [(''correct'', PBool False), (''url'', PStr ''X'')]))"
      and mail = "''m''" and sec = "''s''" and start = "PStr ''http://q/1''" and owner = "''o''"
      and step = "submitted [(''correct'', PBool False), (''url'', PStr ''X'')]"
      and r = "[(''correct'', PBool False), (''url'', PStr ''X'')]" and x = "''X''"
      and step' = "submitted [(''url'', PStr ''X'')]" and nu = "PStr ''X''"]
  by (simp add: every_step_def submitted_def attempt_step_def)

text \<open>
  Claim C3. The trace of every run has at most 12 entries. When every step returns a
  result whose \<^verbatim>\<open>response\<close> is a dictionary with a \<^verbatim>\<open>url\<close> that holds a URL (a
  truthy value, such as a non-empty string), the run makes exactly 12 steps.
\<close>
theorem chain_stops_at_twelve:
  "length (solve_quiz_chain solve mail sec start owner) \<le> 12
   \<and> ((\<forall>i<12. \<forall>cur. \<exists>step r x. solve i mail sec cur = Inr step \<and>
          map_of step ''response'' = Some (PDict r) \<and> map_of r ''url'' = Some x \<and> truthy x)
       \<longrightarrow> length (solve_quiz_chain solve mail sec start owner) = 12)"
proof (intro conjI impI)
  show "length (solve_quiz_chain solve mail sec start owner) \<le> 12"
    using chain_loop_entries[of solve mail sec 0 12 start "[]"]
    by (auto simp: solve_quiz_chain_def)
next
  assume h: "\<forall>i<12. \<forall>cur. \<exists>step r x. solve i mail sec cur = Inr step \<and>
          map_of step ''response'' = Some (PDict r) \<and> map_of r ''url'' = Some x \<and> truthy x"
  have "\<forall>i cur. 0 \<le> i \<and> i < 0 + 12 \<longrightarrow> advance (attempt_step solve i mail sec cur) \<noteq> None"
  proof (intro allI impI)
    fix i cur assume "0 \<le> i \<and> i < 0 + (12::nat)"
    then have "i < 12" by simp
    with h obtain step r x where s: "solve i mail sec cur = Inr step"
      "map_of step ''response'' = Some (PDict r)" "map_of r ''url'' = Some x" "truthy x"
      by blast
    from advance_url[OF s(2-4)] attempt_step_Inr[of solve i mail sec cur step, OF s(1)]
    show "advance (attempt_step solve i mail sec cur) \<noteq> None" by simp
  qed
  from chain_loop_full[OF this, of start "[]"]
  show "length (solve_quiz_chain solve mail sec start owner) = 12"
    by (simp add: solve_quiz_chain_def)
qed

theorem chain_stops_at_twelve_witness:
  "length (solve_quiz_chain (every_step (Inr (submitted [(''url'', PStr ''http://q/1'')])))
     ''m'' ''s'' (PStr ''http://q/1'') ''o'') = 12"
  using chain_stops_at_twelve[where
      solve = "every_step (Inr (submitted [(''url'', PStr ''http://q/1'')]))"
      and mail = "''m''" and sec = "''s''" and start = "PStr ''http://q/1''" and owner = "''o''"]
  by (simp add: every_step_def submitted_def)

text \<open>
  Claim C4. When \<^verbatim>\<open>solve_single\<close> raises an exception \<open>e\<close> at some step, the driver
  appends the entry \<^verbatim>\<open>{"url": current, "result": {"error": str(e)}}\<close> and returns the
  trace: the error record has no next URL, no further step runs, and the result of the
  driver is a trace, not an exception.
\<close>
theorem chain_records_exception:
  "(solve i mail sec cur = Inl e \<longrightarrow>
      chain_loop solve mail sec (i # rest) cur steps =
        steps @ [PDict [(''url'', cur), (''result'', PDict [(''error'', PStr (exn_str e))])]])
   \<and> (solve 0 mail sec start = Inl e \<longrightarrow>
      solve_quiz_chain solve mail sec start owner =
        [PDict [(''url'', start), (''result'', PDict [(''error'', PStr (exn_str e))])]])
   \<and> advance [(''error'', PStr (exn_str e))] = None"
proof (intro conjI impI)
  assume "solve i mail sec cur = Inl e"
  then have "chain_loop solve mail sec (i # rest) cur steps =
      steps @ [quiz_step cur [(''error'', PStr (exn_str e))]]"
    by (intro chain_loop_stop' attempt_step_Inl advance_error)
  then show "chain_loop solve mail sec (i # rest) cur steps =
        steps @ [PDict [(''url'', cur), (''result'', PDict [(''error'', PStr (exn_str e))])]]"
    by (simp add: quiz_step_def)
next
  assume "solve 0 mail sec start = Inl e"
  then have "chain_loop solve mail sec (0 # [Suc 0..<12]) start [] =
      [] @ [quiz_step start [(''error'', PStr (exn_str e))]]"
    by (intro chain_loop_stop' attempt_step_Inl advance_error)
  then show "solve_quiz_chain solve mail sec start owner =
        [PDict [(''url'', start), (''result'', PDict [(''error'', PStr (exn_str e))])]]"
    unfolding solve_quiz_chain_def range12 by (simp add: quiz_step_def)
qed (rule advance_error)

theorem chain_records_exception_witness:
  "solve_quiz_chain (every_step (Inl (OtherError ''boom''))) ''m'' ''s'' (PStr ''http://q/1'') ''o''
     = [PDict [(''url'', PStr ''http://q/1''), (''result'', PDict [(''error'', PStr ''boom'')])]]"
  using chain_records_exception[where solve = "every_step (Inl (OtherError ''boom''))"
      and mail = "''m''" and sec = "''s''" and start = "PStr ''http://q/1''" and owner = "''o''"
      and e = "OtherError ''boom''"]
  by (simp add: every_step_def)

text \<open>
  Claim C10. For every input the trace is not empty, its first entry is for the start
  URL, and its \<open>k\<close>-th entry is the dictionary with exactly the keys \<^verbatim>\<open>url\<close> and
  \<^verbatim>\<open>result\<close>, in which \<^verbatim>\<open>url\<close> is the URL the \<open>k\<close>-th call of
  \<^verbatim>\<open>solve_single\<close> was made with and \<^verbatim>\<open>result\<close> is what that call gave.
\<close>
theorem chain_trace_entries:
  "solve_quiz_chain solve mail sec start owner \<noteq> []
   \<and> visited solve mail sec 0 start 0 = start
   \<and> (\<forall>k < length (solve_quiz_chain solve mail sec start owner).
        solve_quiz_chain solve mail sec start owner ! k =
          PDict [(''url'', visited solve mail sec 0 start k),
                 (''result'', PDict (attempt_step solve k mail sec (visited solve mail sec 0 start k)))])"
  using chain_loop_entries[of solve mail sec 0 12 start "[]"]
  by (auto simp: solve_quiz_chain_def quiz_step_def)

theorem chain_trace_entries_witness:
  "1 < length (solve_quiz_chain (every_step (Inr (submitted [(''url'', PStr ''X'')])))
          ''m'' ''s'' (PStr ''http://q/1'') ''o'')
   \<and> solve_quiz_chain (every_step (Inr (submitted [(''url'', PStr ''X'')])))
          ''m'' ''s'' (PStr ''http://q/1'') ''o'' ! 1 =
       PDict [(''url'', PStr ''X''), (''result'', PDict (submitted [(''url'', PStr ''X'')]))]"
proof -
  let ?S = "every_step (Inr (submitted [(''url'', PStr ''X'')]))"
  have L: "length (solve_quiz_chain ?S ''m'' ''s'' (PStr ''http://q/1'') ''o'') = 12"
    by code_simp
  have V: "visited ?S ''m'' ''s'' 0 (PStr ''http://q/1'') 1 = PStr ''X''"
    by code_simp
  show ?thesis
    using chain_trace_entries[of ?S "''m''" "''s''" "PStr ''http://q/1''" "''o''"] L V
    by (simp add: every_step_def attempt_step_def)
qed

section \<open>Properties of one step\<close>

lemma dict_item_missing: "k \<notin> set (map fst d) \<Longrightarrow> dict_item d k = Inl (KeyError k)"
proof -
  assume "k \<notin> set (map fst d)"
  then have "map_of d k = None" by (simp add: map_of_eq_None_iff)
  then show ?thesis by (simp add: dict_item_def)
qed

lemma submit_stage_missing_answer:
  assumes "su \<noteq> []" and "''submit_payload'' \<in> set (map fst d)" and "''answer'' \<notin> set (map fst d)"
  shows "submit_stage (Some su) d posted = Inl (KeyError ''answer'')"
proof -
  have a: "dict_item d ''answer'' = Inl (KeyError ''answer'')"
    using assms(3) by (rule dict_item_missing)
  show ?thesis
  proof (cases posted)
    case (Inl e)
    with assms(1,2) a show ?thesis
      by (simp add: submit_stage_def try_except_def bind_def)
  next
    case (Inr reply)
    obtain rjson rtext where "reply = (rjson, rtext)" by (cases reply)
    with Inr assms(1,2) a show ?thesis
      by (cases rjson) (simp_all add: submit_stage_def try_except_def bind_def)
  qed
qed

lemma non_mapping_result_raises:
  assumes "io_page (io i cur) = Inr page" and "io_result (io i cur) = v" and "\<And>d. v \<noteq> PDict d"
  shows "solve_single uj io i mail sec cur = Inl (no_attribute v ''get'')"
proof -
  obtain html visible links where "page = (html, visible, links)" by (cases page)
  with assms show ?thesis
    by (cases v) (auto simp: solve_single_def bind_def)
qed

text \<open>
  Claim C9. When a submission URL is found and the executor result is a dictionary with
  the key \<^verbatim>\<open>submit_payload\<close> and without the key \<^verbatim>\<open>answer\<close>, then
  \<^verbatim>\<open>solve_single\<close> raises \<^verbatim>\<open>KeyError('answer')\<close>, whatever the \<^verbatim>\<open>POST\<close> does:
  each of the three \<^verbatim>\<open>return\<close> statements of the submission path evaluates
  \<^verbatim>\<open>result["answer"]\<close>. The chain driver records the step as
  \<^verbatim>\<open>{"error": "'answer'"}\<close> and stops.
\<close>
theorem missing_answer_is_key_error:
  "io_page (io i cur) = Inr (html, visible, links) \<and> io_result (io i cur) = PDict d \<and>
   find_submit uj html links cur = Some su \<and> su \<noteq> [] \<and>
   ''submit_payload'' \<in> set (map fst d) \<and> ''answer'' \<notin> set (map fst d)
   \<longrightarrow> solve_single uj io i mail sec cur = Inl (KeyError ''answer'')
       \<and> chain_loop (solve_single uj io) mail sec (i # rest) cur steps =
           steps @ [PDict [(''url'', cur),
                           (''result'', PDict [(''error'', PStr (exn_str (KeyError ''answer'')))])]]"
proof (intro impI)
  assume h: "io_page (io i cur) = Inr (html, visible, links) \<and> io_result (io i cur) = PDict d \<and>
   find_submit uj html links cur = Some su \<and> su \<noteq> [] \<and>
   ''submit_payload'' \<in> set (map fst d) \<and> ''answer'' \<notin> set (map fst d)"
  then have "submit_stage (Some su) d (io_post (io i cur)) = Inl (KeyError ''answer'')"
    by (intro submit_stage_missing_answer) simp_all
  with h have r: "solve_single uj io i mail sec cur = Inl (KeyError ''answer'')"
    by (simp add: solve_single_def bind_def)
  have "chain_loop (solve_single uj io) mail sec (i # rest) cur steps =
      steps @ [quiz_step cur [(''error'', PStr (exn_str (KeyError ''answer'')))]]"
    by (intro chain_loop_stop' attempt_step_Inl advance_error r)
  with r show "solve_single uj io i mail sec cur = Inl (KeyError ''answer'')
       \<and> chain_loop (solve_single uj io) mail sec (i # rest) cur steps =
           steps @ [PDict [(''url'', cur),
                           (''result'', PDict [(''error'', PStr (exn_str (KeyError ''answer'')))])]]"
    by (simp add: quiz_step_def)
qed

theorem missing_answer_is_key_error_witness:
  "solve_single join_absolute no_answer_io 0 ''m'' ''s'' (PStr ''http://q/1'') = Inl (KeyError ''answer'')
   \<and> solve_quiz_chain (solve_single join_absolute no_answer_io) ''m'' ''s'' (PStr ''http://q/1'') ''o'' =
       [PDict [(''url'', PStr ''http://q/1''),
               (''result'', PDict [(''error'', PStr [CHR 0x27, CHR ''a'', CHR ''n'', CHR ''s'', CHR ''w'', CHR ''e'', CHR ''r'', CHR 0x27])])]]"
proof -
  have f: "find_submit join_absolute [] [''/submit''] (PStr ''http://q/1'') = Some ''/submit''"
    by code_simp
  show ?thesis
    using f missing_answer_is_key_error[where io = no_answer_io and i = 0 and cur = "PStr ''http://q/1''"
        and html = "[]" and visible = "[]" and links = "[''/submit'']" and uj = join_absolute
        and d = "[(''submit_payload'', PDict [(''answer'', PInt 1)])]" and su = "''/submit''"
        and mail = "''m''" and sec = "''s''" and rest = "[Suc 0..<12]" and steps = "[]"]
    by (simp add: no_answer_io_def solve_quiz_chain_def range12)
qed

section \<open>Properties of the endpoint discovery\<close>

lemma takeWhile_run:
  assumes "list_all P ws" and "\<not> P x"
  shows "takeWhile P (ws @ x # rest) = ws"
  using assms by (induction ws) simp_all

lemma startswith_prefix: "startswith s p = prefix p s"
proof
  assume "startswith s p"
  then have "s = p @ drop (length p) s"
    unfolding startswith_def by (metis append_take_drop_id)
  then show "prefix p s" by (rule prefixI)
next
  assume "prefix p s"
  then obtain zs where "s = p @ zs" by (auto simp: prefix_def)
  then show "startswith s p" by (simp add: startswith_def)
qed

lemma contains_sublist: "contains sub s = sublist sub s"
  by (induction s) (auto simp: startswith_prefix sublist_Cons_right)

lemma re_findall_mem:
  "g \<in> set (re_findall m s) \<Longrightarrow> \<exists>t n. suffix t s \<and> m t = Some (g, n)"
proof (induction "length s" arbitrary: s rule: less_induct)
  case less
  show ?case
  proof (cases s)
    case Nil
    with less.prems show ?thesis by simp
  next
    case (Cons c cs)
    show ?thesis
    proof (cases "m (c # cs)")
      case None
      with less.prems Cons have "g \<in> set (re_findall m cs)" by simp
      with less.hyps[of cs] Cons obtain t n where "suffix t cs" "m t = Some (g, n)" by auto
      then show ?thesis unfolding Cons by (meson suffix_Cons)
    next
      case (Some a)
      obtain g' n' where a: "a = (g', n')" by (cases a)
      show ?thesis
      proof (cases "g = g'")
        case True
        with Some a show ?thesis unfolding Cons by (intro exI[of _ "c # cs"] exI[of _ n']) simp
      next
        case False
        with less.prems Cons Some a have "g \<in> set (re_findall m (drop (n' - 1) cs))" by simp
        moreover have "length (drop (n' - 1) cs) < length s" unfolding Cons by simp
        ultimately obtain t n where t: "suffix t (drop (n' - 1) cs)" "m t = Some (g, n)"
          using less.hyps[of "drop (n' - 1) cs"] by blast
        from t(1) have "suffix t cs"
          using suffix_drop suffix_order.trans by blast
        then have "suffix t (c # cs)" by (rule suffix_ConsI)
        with t(2) show ?thesis unfolding Cons by blast
      qed
    qed
  qed
qed

lemma re_findall_empty:
  assumes "\<And>t. suffix t s \<Longrightarrow> m t = None"
  shows "re_findall m s = []"
proof (cases "re_findall m s")
  case Nil
  then show ?thesis .
next
  case (Cons g gs)
  then have "g \<in> set (re_findall m s)" by simp
  from re_findall_mem[OF this] assms show ?thesis by fastforce
qed

lemma submit_offset_prefix: "submit_offset s = Some k \<Longrightarrow> prefix ''submit'' (drop k s)"
proof (induction s arbitrary: k)
  case Nil
  then show ?case by simp
next
  case (Cons c cs)
  show ?case
  proof (cases "submit_offset cs")
    case None
    with Cons.prems have "k = 1" "startswith cs ''submit''"
      by (auto split: if_splits)
    then show ?thesis by (simp add: startswith_prefix)
  next
    case (Some j)
    with Cons.prems have "k = Suc j" by (auto split: if_splits)
    with Cons.IH[OF Some] show ?thesis by simp
  qed
qed

lemma match_submit_sublist:
  assumes "match_submit t = Some (g, n)"
  shows "sublist ''submit'' t"
proof -
  from assms obtain k where "submit_offset t = Some k"
    by (auto simp: match_submit_def split: option.splits)
  then have "prefix ''submit'' (drop k t)" by (rule submit_offset_prefix)
  then have "sublist ''submit'' (drop k t)" by (rule prefix_imp_sublist)
  moreover have "sublist (drop k t) t" by (intro suffix_imp_sublist suffix_drop)
  ultimately show ?thesis by (rule sublist_order.order.trans)
qed

lemma match_action_sublist:
  assumes "match_action t = Some (g, n)"
  shows "sublist g t"
proof -
  from assms obtain q u where u: "drop 7 t = q # u"
    "g = takeWhile (\<lambda>c. \<not> is_quote c \<and> c \<noteq> CHR 0x0A) u"
    by (auto simp: match_action_def Let_def split: if_splits list.splits)
  have "prefix g u" unfolding u(2) by (rule takeWhile_is_prefix)
  then have "sublist g u" by (rule prefix_imp_sublist)
  moreover have "suffix u (drop 7 t)" unfolding u(1) by (simp add: suffix_ConsI)
  then have "sublist u (drop 7 t)" by (rule suffix_imp_sublist)
  moreover have "sublist (drop 7 t) t" by (intro suffix_imp_sublist suffix_drop)
  ultimately show ?thesis by (meson sublist_order.order.trans)
qed

lemma no_submit_no_token:
  assumes "\<not> contains ''submit'' html"
  shows "re_findall match_submit html = []"
proof (rule re_findall_empty)
  fix t assume "suffix t html"
  then have s: "sublist t html" by (rule suffix_imp_sublist)
  show "match_submit t = None"
  proof (cases "match_submit t")
    case (Some a)
    obtain g n where "a = (g, n)" by (cases a)
    with Some have "sublist ''submit'' t" using match_submit_sublist by blast
    with s have "sublist ''submit'' html" by (meson sublist_order.order.trans)
    with assms show ?thesis by (simp add: contains_sublist)
  qed simp
qed

lemma no_submit_no_action:
  assumes "\<not> contains ''submit'' html"
  shows "filter (contains ''submit'') (re_findall match_action html) = []"
proof -
  have "\<not> contains ''submit'' g" if "g \<in> set (re_findall match_action html)" for g
  proof
    assume c: "contains ''submit'' g"
    from re_findall_mem[OF that] obtain t n where t: "suffix t html" "match_action t = Some (g, n)"
      by blast
    from t(2) have "sublist g t" by (rule match_action_sublist)
    moreover from t(1) have "sublist t html" by (rule suffix_imp_sublist)
    ultimately have "sublist g html" by (rule sublist_order.order.trans)
    with c have "sublist ''submit'' html"
      unfolding contains_sublist by (meson sublist_order.order.trans)
    with assms show False by (simp add: contains_sublist)
  qed
  then show ?thesis by (simp add: filter_empty_conv)
qed

lemma submit_link_filter:
  "submit_link links =
     (case filter (\<lambda>l. contains ''submit'' (lower l)) links of [] \<Rightarrow> None | l # _ \<Rightarrow> Some l)"
  by (induction links) simp_all

lemma submit_action_filter:
  "submit_action ms = (case filter (contains ''submit'') ms of [] \<Rightarrow> None | m # _ \<Rightarrow> Some m)"
  by (induction ms) simp_all

lemma find_submit_refines: "find_submit uj html links base = find_submit_spec uj html links base"
  unfolding find_submit_def find_submit_spec_def submit_link_filter submit_action_filter
  by (simp split: list.splits)

lemma normalize_relative:
  assumes "raw \<noteq> []" and "strip raw = raw"
    and "\<not> startswith raw ''http://''" and "\<not> startswith raw ''https://''"
  shows "normalize_url uj base raw = (case uj base raw of Inr u \<Rightarrow> Some u | Inl e \<Rightarrow> None)"
  using assms by (simp add: normalize_url_def)

lemma normalize_absolute:
  assumes "raw \<noteq> []" and "strip raw = raw"
    and "startswith raw ''http://'' \<or> startswith raw ''https://''"
  shows "normalize_url uj base raw = Some raw"
  using assms by (auto simp: normalize_url_def)


section \<open>More properties of the endpoint discovery\<close>

lemma lower_char_spelled:
  assumes "c = d \<or> code c + 32 = code d" and "97 \<le> code d" and "code d \<le> 122"
  shows "lower_char c = d"
proof (cases "c = d")
  case True
  with assms(2,3) show ?thesis by (simp add: lower_char_def Let_def)
next
  case False
  with assms(1) have e: "code c + 32 = code d" by simp
  with assms(2,3) have "65 \<le> code c \<and> code c \<le> 90" by arith
  then have "lower_char c = char_of (code c + 32)" by (simp add: lower_char_def Let_def)
  also have "\<dots> = char_of (code d)" using e by simp
  also have "\<dots> = d" by (simp add: code_def)
  finally show ?thesis .
qed

lemma lower_spelled:
  "list_all2 (\<lambda>c d. c = d \<or> code c + 32 = code d) w v \<Longrightarrow>
   list_all (\<lambda>d. 97 \<le> code d \<and> code d \<le> 122) v \<Longrightarrow> lower w = v"
  unfolding lower_def
  by (induction w v rule: list_all2_induct) (simp_all add: lower_char_spelled)

lemma lower_spells_submit: "spells w ''submit'' \<Longrightarrow> lower w = ''submit''"
proof -
  assume "spells w ''submit''"
  moreover have "list_all (\<lambda>d. 97 \<le> code d \<and> code d \<le> 122) ''submit''" by code_simp
  ultimately show ?thesis unfolding spells_def by (rule lower_spelled)
qed

lemma contains_spelled:
  assumes "spells w ''submit''"
  shows "contains ''submit'' (lower (pre @ w @ post))"
proof -
  have e: "lower (pre @ w @ post) = lower pre @ ''submit'' @ lower post"
    using lower_spells_submit[OF assms] by (simp add: lower_def)
  show ?thesis unfolding contains_sublist e by (rule sublist_appendI)
qed

lemma submit_link_first:
  "list_all (\<lambda>l. \<not> contains ''submit'' (lower l)) before \<Longrightarrow> contains ''submit'' (lower link) \<Longrightarrow>
   submit_link (before @ link # after) = Some link"
  by (induction before) simp_all

lemma submit_link_none:
  "list_all (\<lambda>l. \<not> contains ''submit'' (lower l)) links \<Longrightarrow> submit_link links = None"
  by (induction links) simp_all

lemma re_findall_skip:
  "(\<And>i. i < length pre \<Longrightarrow> m (drop i (pre @ rest)) = None) \<Longrightarrow>
   re_findall m (pre @ rest) = re_findall m rest"
proof (induction pre)
  case Nil
  then show ?case by simp
next
  case (Cons c pre)
  from Cons.prems[of 0] have "m (c # pre @ rest) = None" by simp
  moreover have "re_findall m (pre @ rest) = re_findall m rest"
  proof (rule Cons.IH)
    fix i assume "i < length pre"
    then show "m (drop i (pre @ rest)) = None" using Cons.prems[of "Suc i"] by simp
  qed
  ultimately show ?case by simp
qed

lemma match_action_value:
  assumes "is_quote q" and "is_quote q'" and "list_all (\<lambda>c. \<not> is_quote c \<and> c \<noteq> CHR 0x0A) v"
  shows "match_action (''action='' @ q # v @ q' # post) = Some (v, 8 + length v + 1)"
proof -
  have t: "takeWhile (\<lambda>c. \<not> is_quote c \<and> c \<noteq> CHR 0x0A) (v @ q' # post) = v"
    using assms(3,2) by (simp add: takeWhile_run)
  show ?thesis
    using assms(1,2) by (simp add: match_action_def startswith_def t Let_def)
qed

lemma match_action_none: "\<not> startswith s ''action='' \<Longrightarrow> match_action s = None"
  by (simp add: match_action_def)

lemma first_action_value:
  assumes "\<And>i. i < length pre \<Longrightarrow> \<not> startswith (drop i (pre @ ''action='' @ q # v @ q' # post)) ''action=''"
    and "is_quote q" and "is_quote q'" and "list_all (\<lambda>c. \<not> is_quote c \<and> c \<noteq> CHR 0x0A) v"
  shows "\<exists>ms. re_findall match_action (pre @ ''action='' @ q # v @ q' # post) = v # ms"
proof -
  let ?rest = "''action='' @ q # v @ q' # post"
  have "re_findall match_action (pre @ ?rest) = re_findall match_action ?rest"
  proof (rule re_findall_skip)
    fix i assume "i < length pre"
    from assms(1)[OF this] show "match_action (drop i (pre @ ?rest)) = None"
      by (rule match_action_none)
  qed
  moreover have "\<exists>ms. re_findall match_action ?rest = v # ms"
    using match_action_value[OF assms(2-4), of post] by simp
  ultimately show ?thesis by simp
qed


text \<open>
  Claim C5. \<^verbatim>\<open>find_submit\<close> tries its three stages in order and resolves the first
  match: it agrees with the specification's wording, in which the candidates are the
  links that contain \<^verbatim>\<open>submit\<close> in any case, then the \<^verbatim>\<open>action\<close> values that
  contain \<^verbatim>\<open>submit\<close>, then the URL-like tokens around \<^verbatim>\<open>submit\<close>. For the page
  \<^verbatim>\<open><a href="/do-submit">here</a>\<close> (with or without the link in the link list)
  it returns \<^verbatim>\<open>/do-submit\<close> joined to the base; for \<^verbatim>\<open><form action="/s/submit">\<close>
  it returns \<^verbatim>\<open>/s/submit\<close> joined to the base; for a text that holds
  \<^verbatim>\<open>http://x/y/submitnow?id=1\<close> it returns that URL; and when neither a link (in
  any case) nor the HTML contains \<^verbatim>\<open>submit\<close> it returns nothing.
  Each stage is fixed on its own. Stage (a): the first link that holds \<^verbatim>\<open>submit\<close>
  in any mix of upper and lower case is the one resolved, whatever the HTML holds;
  so for the link \<^verbatim>\<open>/API/SUBMIT\<close>, and for a link beside a form and a token.
  Stage (b): when no link matches, the value of the first \<^verbatim>\<open>action\<close> attribute, if
  it contains \<^verbatim>\<open>submit\<close>, is the one resolved, whatever tokens the HTML holds; so
  for \<^verbatim>\<open><form action="submit">\<close>, which no other stage matches, and for a form
  behind a URL-like token. Resolving returns a stripped reference that starts with
  \<^verbatim>\<open>http://\<close> or \<^verbatim>\<open>https://\<close> as it is, and joins any other to the base.
\<close>
theorem find_submit_stages: \<open>
  find_submit uj html links base = find_submit_spec uj html links base
  \<and> find_submit uj ''<a href="/do-submit">here</a>'' [''/do-submit''] base =
      (case uj base ''/do-submit'' of Inr u \<Rightarrow> Some u | Inl e \<Rightarrow> None)
  \<and> find_submit uj ''<a href="/do-submit">here</a>'' [] base =
      (case uj base ''/do-submit'' of Inr u \<Rightarrow> Some u | Inl e \<Rightarrow> None)
  \<and> find_submit uj ''<form action="/s/submit">'' [] base =
      (case uj base ''/s/submit'' of Inr u \<Rightarrow> Some u | Inl e \<Rightarrow> None)
  \<and> find_submit uj ''...go to http://x/y/submitnow?id=1 now'' [] base =
      Some ''http://x/y/submitnow?id=1''
  \<and> (\<not> contains ''submit'' html \<and> list_all (\<lambda>l. \<not> contains ''submit'' (lower l)) links
      \<longrightarrow> find_submit uj html links base = None)
  \<and> find_submit uj ''<form action="submit">'' [] base =
      (case uj base ''submit'' of Inr u \<Rightarrow> Some u | Inl e \<Rightarrow> None)
  \<and> find_submit uj ''<p>go</p>'' [''/about'', ''/API/SUBMIT''] base =
      (case uj base ''/API/SUBMIT'' of Inr u \<Rightarrow> Some u | Inl e \<Rightarrow> None)
  \<and> find_submit uj ''<form action="/b/submit"> see http://x/c-submit'' [''/a-Submit''] base =
      (case uj base ''/a-Submit'' of Inr u \<Rightarrow> Some u | Inl e \<Rightarrow> None)
  \<and> find_submit uj ''see http://x/c-submit <form action="submit">'' [] base =
      (case uj base ''submit'' of Inr u \<Rightarrow> Some u | Inl e \<Rightarrow> None)
  \<and> (spells w ''submit'' \<and> list_all (\<lambda>l. \<not> contains ''submit'' (lower l)) before
      \<longrightarrow> find_submit uj html (before @ (pre @ w @ post) # after) base =
            normalize_url uj base (pre @ w @ post))
  \<and> (list_all (\<lambda>l. \<not> contains ''submit'' (lower l)) links \<and>
      (\<forall>i<length pre. \<not> startswith (drop i (pre @ ''action='' @ q # v @ q' # post)) ''action='') \<and>
      is_quote q \<and> is_quote q' \<and> list_all (\<lambda>c. \<not> is_quote c \<and> c \<noteq> CHR 0x0A) v \<and>
      contains ''submit'' v
      \<longrightarrow> find_submit uj (pre @ ''action='' @ q # v @ q' # post) links base =
            normalize_url uj base v)
  \<and> (raw \<noteq> [] \<longrightarrow> normalize_url uj base raw =
        (if startswith (strip raw) ''http://'' \<or> startswith (strip raw) ''https://''
         then Some (strip raw)
         else (case uj base (strip raw) of Inr u \<Rightarrow> Some u | Inl e \<Rightarrow> None)))\<close>
proof (intro conjI impI)
  show "find_submit uj html links base = find_submit_spec uj html links base"
    by (rule find_submit_refines)
next
  have l: "submit_link [''/do-submit''] = Some ''/do-submit''" by code_simp
  have n: "''/do-submit'' \<noteq> []" "strip ''/do-submit'' = ''/do-submit''"
    "\<not> startswith ''/do-submit'' ''http://''" "\<not> startswith ''/do-submit'' ''https://''"
    by code_simp+
  show \<open>find_submit uj ''<a href="/do-submit">here</a>'' [''/do-submit''] base =
      (case uj base ''/do-submit'' of Inr u \<Rightarrow> Some u | Inl e \<Rightarrow> None)\<close>
    unfolding find_submit_def l using normalize_relative[OF n] by simp
  have a: \<open>submit_action (re_findall match_action ''<a href="/do-submit">here</a>'') = None\<close>
    by code_simp
  have t: \<open>re_findall match_submit ''<a href="/do-submit">here</a>'' = [''/do-submit'']\<close>
    by code_simp
  show \<open>find_submit uj ''<a href="/do-submit">here</a>'' [] base =
      (case uj base ''/do-submit'' of Inr u \<Rightarrow> Some u | Inl e \<Rightarrow> None)\<close>
    unfolding find_submit_def a t using normalize_relative[OF n] by simp
next
  have a: \<open>submit_action (re_findall match_action ''<form action="/s/submit">'') = Some ''/s/submit''\<close>
    by code_simp
  have n: "''/s/submit'' \<noteq> []" "strip ''/s/submit'' = ''/s/submit''"
    "\<not> startswith ''/s/submit'' ''http://''" "\<not> startswith ''/s/submit'' ''https://''"
    by code_simp+
  show \<open>find_submit uj ''<form action="/s/submit">'' [] base =
      (case uj base ''/s/submit'' of Inr u \<Rightarrow> Some u | Inl e \<Rightarrow> None)\<close>
    unfolding find_submit_def a using normalize_relative[OF n] by simp
next
  have a: "submit_action (re_findall match_action ''...go to http://x/y/submitnow?id=1 now'') = None"
    by code_simp
  have t: "re_findall match_submit ''...go to http://x/y/submitnow?id=1 now'' = [''http://x/y/submitnow?id=1'']"
    by code_simp
  have n: "''http://x/y/submitnow?id=1'' \<noteq> []"
    "strip ''http://x/y/submitnow?id=1'' = ''http://x/y/submitnow?id=1''"
    "startswith ''http://x/y/submitnow?id=1'' ''http://'' \<or> startswith ''http://x/y/submitnow?id=1'' ''https://''"
    by code_simp+
  show "find_submit uj ''...go to http://x/y/submitnow?id=1 now'' [] base = Some ''http://x/y/submitnow?id=1''"
    unfolding find_submit_def a t using normalize_absolute[OF n] by simp
next
  assume h: "\<not> contains ''submit'' html \<and> list_all (\<lambda>l. \<not> contains ''submit'' (lower l)) links"
  then have "filter (\<lambda>l. contains ''submit'' (lower l)) links = []"
    by (simp add: filter_empty_conv list_all_iff)
  with h show "find_submit uj html links base = None"
    unfolding find_submit_refines find_submit_spec_def
    by (simp add: no_submit_no_action no_submit_no_token)
next
  have a: \<open>submit_action (re_findall match_action ''<form action="submit">'') = Some ''submit''\<close>
    by code_simp
  have n: "''submit'' \<noteq> []" "strip ''submit'' = ''submit''"
    "\<not> startswith ''submit'' ''http://''" "\<not> startswith ''submit'' ''https://''"
    by code_simp+
  show \<open>find_submit uj ''<form action="submit">'' [] base =
      (case uj base ''submit'' of Inr u \<Rightarrow> Some u | Inl e \<Rightarrow> None)\<close>
    unfolding find_submit_def a using normalize_relative[OF n] by simp
  have a': \<open>submit_action (re_findall match_action ''see http://x/c-submit <form action="submit">'')
      = Some ''submit''\<close>
    by code_simp
  show \<open>find_submit uj ''see http://x/c-submit <form action="submit">'' [] base =
      (case uj base ''submit'' of Inr u \<Rightarrow> Some u | Inl e \<Rightarrow> None)\<close>
    unfolding find_submit_def a' using normalize_relative[OF n] by simp
next
  have l: "submit_link [''/about'', ''/API/SUBMIT''] = Some ''/API/SUBMIT''" by code_simp
  have n: "''/API/SUBMIT'' \<noteq> []" "strip ''/API/SUBMIT'' = ''/API/SUBMIT''"
    "\<not> startswith ''/API/SUBMIT'' ''http://''" "\<not> startswith ''/API/SUBMIT'' ''https://''"
    by code_simp+
  show \<open>find_submit uj ''<p>go</p>'' [''/about'', ''/API/SUBMIT''] base =
      (case uj base ''/API/SUBMIT'' of Inr u \<Rightarrow> Some u | Inl e \<Rightarrow> None)\<close>
    unfolding find_submit_def l using normalize_relative[OF n] by simp
next
  have l: "submit_link [''/a-Submit''] = Some ''/a-Submit''" by code_simp
  have n: "''/a-Submit'' \<noteq> []" "strip ''/a-Submit'' = ''/a-Submit''"
    "\<not> startswith ''/a-Submit'' ''http://''" "\<not> startswith ''/a-Submit'' ''https://''"
    by code_simp+
  show \<open>find_submit uj ''<form action="/b/submit"> see http://x/c-submit'' [''/a-Submit''] base =
      (case uj base ''/a-Submit'' of Inr u \<Rightarrow> Some u | Inl e \<Rightarrow> None)\<close>
    unfolding find_submit_def l using normalize_relative[OF n] by simp
next
  assume h: "spells w ''submit'' \<and> list_all (\<lambda>l. \<not> contains ''submit'' (lower l)) before"
  then have "submit_link (before @ (pre @ w @ post) # after) = Some (pre @ w @ post)"
    by (intro submit_link_first contains_spelled) simp_all
  then show "find_submit uj html (before @ (pre @ w @ post) # after) base =
            normalize_url uj base (pre @ w @ post)"
    by (simp add: find_submit_def)
next
  assume h: "list_all (\<lambda>l. \<not> contains ''submit'' (lower l)) links \<and>
      (\<forall>i<length pre. \<not> startswith (drop i (pre @ ''action='' @ q # v @ q' # post)) ''action='') \<and>
      is_quote q \<and> is_quote q' \<and> list_all (\<lambda>c. \<not> is_quote c \<and> c \<noteq> CHR 0x0A) v \<and>
      contains ''submit'' v"
  then have l: "submit_link links = None" by (intro submit_link_none) simp
  from h obtain ms where "re_findall match_action (pre @ ''action='' @ q # v @ q' # post) = v # ms"
    using first_action_value[of pre q v q' post] by blast
  with h have "submit_action (re_findall match_action (pre @ ''action='' @ q # v @ q' # post)) = Some v"
    by simp
  with l show "find_submit uj (pre @ ''action='' @ q # v @ q' # post) links base = normalize_url uj base v"
    by (simp add: find_submit_def)
next
  assume "raw \<noteq> []"
  then show "normalize_url uj base raw =
        (if startswith (strip raw) ''http://'' \<or> startswith (strip raw) ''https://''
         then Some (strip raw)
         else (case uj base (strip raw) of Inr u \<Rightarrow> Some u | Inl e \<Rightarrow> None))"
    by (simp add: normalize_url_def Let_def)
qed

theorem find_submit_stages_witness: \<open>
  \<not> contains ''submit'' ''<p>Nothing to send</p>''
  \<and> list_all (\<lambda>l. \<not> contains ''submit'' (lower l)) [''/about'', ''/data.csv'']
  \<and> find_submit join_absolute ''<p>Nothing to send</p>'' [''/about'', ''/data.csv''] (PStr ''http://q/1'') = None
  \<and> spells ''SubMIT'' ''submit''
  \<and> find_submit join_absolute ''<p>Nothing to send</p>'' [''/about'', ''/api/SubMIT?x=1'', ''/c''] (PStr ''http://q/1'')
      = Some ''/api/SubMIT?x=1''
  \<and> find_submit join_absolute ''<form method="post" action='/api/submit/7'>'' [''/about''] (PStr ''http://q/1'')
      = Some ''/api/submit/7''\<close>
proof -
  have h: \<open>\<not> contains ''submit'' ''<p>Nothing to send</p>''\<close>
    \<open>list_all (\<lambda>l. \<not> contains ''submit'' (lower l)) [''/about'', ''/data.csv'']\<close>
    by code_simp+
  have 1: \<open>find_submit join_absolute ''<p>Nothing to send</p>'' [''/about'', ''/data.csv''] (PStr ''http://q/1'') = None\<close>
    using h find_submit_stages[where html = \<open>''<p>Nothing to send</p>''\<close>
      and links = "[''/about'', ''/data.csv'']" and uj = join_absolute and base = "PStr ''http://q/1''"]
    by blast
  have s: "spells ''SubMIT'' ''submit''" "list_all (\<lambda>l. \<not> contains ''submit'' (lower l)) [''/about'']"
    by code_simp+
  have n: "normalize_url join_absolute (PStr ''http://q/1'') ''/api/SubMIT?x=1'' = Some ''/api/SubMIT?x=1''"
    "normalize_url join_absolute (PStr ''http://q/1'') ''/api/submit/7'' = Some ''/api/submit/7''"
    by code_simp+
  from s find_submit_stages[where w = "''SubMIT''" and before = "[''/about'']" and pre = "''/api/''"
      and post = "''?x=1''" and after = "[''/c'']" and uj = join_absolute and base = "PStr ''http://q/1''"
      and html = \<open>''<p>Nothing to send</p>''\<close>]
  have "find_submit join_absolute ''<p>Nothing to send</p>''
          ([''/about''] @ (''/api/'' @ ''SubMIT'' @ ''?x=1'') # [''/c'']) (PStr ''http://q/1'')
        = normalize_url join_absolute (PStr ''http://q/1'') (''/api/'' @ ''SubMIT'' @ ''?x=1'')"
    by blast
  then have 2: \<open>find_submit join_absolute ''<p>Nothing to send</p>'' [''/about'', ''/api/SubMIT?x=1'', ''/c'']
      (PStr ''http://q/1'') = Some ''/api/SubMIT?x=1''\<close>
    using n(1) by simp
  have b: \<open>\<forall>i<length ''<form method="post" ''.
      \<not> startswith (drop i (''<form method="post" '' @ ''action='' @ CHR 0x27 # ''/api/submit/7'' @ CHR 0x27 # ''>'')) ''action=''\<close>
    \<open>is_quote (CHR 0x27)\<close>
    \<open>list_all (\<lambda>c. \<not> is_quote c \<and> c \<noteq> CHR 0x0A) ''/api/submit/7''\<close>
    \<open>contains ''submit'' ''/api/submit/7''\<close>
    by code_simp+
  from s(2) b find_submit_stages[where links = "[''/about'']" and pre = \<open>''<form method="post" ''\<close>
      and q = "CHR 0x27" and q' = "CHR 0x27" and v = "''/api/submit/7''" and post = "''>''"
      and uj = join_absolute and base = "PStr ''http://q/1''"]
  have "find_submit join_absolute
          (''<form method=\"post\" '' @ ''action='' @ CHR 0x27 # ''/api/submit/7'' @ CHR 0x27 # ''>'')
          [''/about''] (PStr ''http://q/1'')
        = normalize_url join_absolute (PStr ''http://q/1'') ''/api/submit/7''"
    by blast
  then have 3: \<open>find_submit join_absolute ''<form method="post" action='/api/submit/7'>'' [''/about'']
      (PStr ''http://q/1'') = Some ''/api/submit/7''\<close>
    using n(2) by simp
  show ?thesis using h 1 s(1) 2 3 by blast
qed

section \<open>Properties of the model invocation\<close>

lemma range3: "[0..<3] = [0, 1, 2]"
  by (simp add: upt_rec)

lemma attempt_body_0: "attempt_body prompt 0 = initial_body prompt"
  by (simp add: attempt_body_def)

lemma attempt_body_Suc:
  "(attempt_body prompt k)\<lparr>messages := messages (attempt_body prompt k) @ [nudge]\<rparr> =
     attempt_body prompt (Suc k)"
  by (simp add: attempt_body_def replicate_append_same)

lemma ask_loop_step:
  "ask_loop dumps post (a # rest) (attempt_body prompt k) sent =
     (case attempt_once dumps post (attempt_body prompt k) sent of
        (Some out, s') \<Rightarrow> (out, s')
      | (None, s') \<Rightarrow> ask_loop dumps post rest (attempt_body prompt (Suc k)) s')"
  by (simp add: attempt_body_Suc split: prod.splits option.splits)

lemma ask_loop_unrolled:
  "ask_loop dumps post [a, b, c] (attempt_body prompt 0) sent =
     (case attempt_once dumps post (attempt_body prompt 0) sent of
        (Some out, s1) \<Rightarrow> (out, s1)
      | (None, s1) \<Rightarrow>
         (case attempt_once dumps post (attempt_body prompt 1) s1 of
            (Some out, s2) \<Rightarrow> (out, s2)
          | (None, s2) \<Rightarrow>
             (case attempt_once dumps post (attempt_body prompt 2) s2 of
                (Some out, s3) \<Rightarrow> (out, s3)
              | (None, s3) \<Rightarrow> (''{}'', s3))))"
  unfolding ask_loop_step ask_loop.simps(1) One_nat_def numeral_2_eq_2 ..

lemma call_loop_sent:
  "\<exists>k. k \<le> length atts \<and> (atts \<noteq> [] \<longrightarrow> 1 \<le> k) \<and>
     snd (call_loop post atts payload sent) = sent @ replicate k payload"
proof (induction atts arbitrary: sent)
  case Nil
  then show ?case by simp
next
  case (Cons a atts)
  show ?case
  proof (cases "post (sent @ [payload])")
    case (Inr v)
    then show ?thesis by (intro exI[of _ 1]) (simp add: Let_def)
  next
    case (Inl e)
    show ?thesis
    proof (cases "a = 2")
      case True
      with Inl show ?thesis by (intro exI[of _ 1]) (simp add: Let_def)
    next
      case False
      from Cons.IH[of "sent @ [payload]"] obtain k where
        k: "k \<le> length atts" "snd (call_loop post atts payload (sent @ [payload])) = (sent @ [payload]) @ replicate k payload"
        by blast
      with Inl False show ?thesis
        by (intro exI[of _ "Suc k"]) (simp add: Let_def replicate_app_Cons_same)
    qed
  qed
qed

lemma call_aipipe_api_sent:
  "\<exists>k. 1 \<le> k \<and> k \<le> 3 \<and> snd (call_aipipe_api post payload sent) = sent @ replicate k payload"
  using call_loop_sent[of "[0, 1, 2]" post payload sent]
  by (auto simp: call_aipipe_api_def range3)

lemma attempt_once_snd:
  "snd (attempt_once dumps post body sent) = snd (call_aipipe_api post body sent)"
  by (simp add: attempt_once_def try_except_def split: prod.splits sum.splits)

lemma attempt_once_Some:
  "attempt_once dumps post body sent = (Some out, s') \<longleftrightarrow>
     (\<exists>resp. call_aipipe_api post body sent = (Inr resp, s') \<and> candidate dumps resp = Inr (Some out))"
proof (cases "call_aipipe_api post body sent")
  case (Pair outcome s)
  show ?thesis
  proof (cases outcome)
    case (Inl e)
    with Pair show ?thesis by (simp add: attempt_once_def try_except_def bind_def)
  next
    case (Inr resp)
    with Pair show ?thesis
      by (cases "candidate dumps resp") (auto simp: attempt_once_def try_except_def bind_def)
  qed
qed

lemma attempt_once_raise:
  "call_aipipe_api post body sent = (Inl e, s') \<Longrightarrow> attempt_once dumps post body sent = (None, s')"
  by (simp add: attempt_once_def try_except_def bind_def)

lemma candidate_chat:
  "candidate dumps (chat_completion t) = Inr (if strip t \<noteq> [] then Some t else None)"
  by (simp add: candidate_def chat_completion_def bind_def dict_item_def)

lemma candidate_not_blank: "candidate dumps resp = Inr (Some out) \<Longrightarrow> strip out \<noteq> []"
  by (auto simp: candidate_def bind_def split: sum.splits if_splits pyval.splits)


text \<open>
  Claim C6 as stated fails on a text that is not empty and blank: when the provider
  answers every request with the single space as the message content, the candidate
  text is not returned; the loop makes its three attempts and returns \<^verbatim>\<open>{}\<close>.
\<close>
theorem blank_text_is_not_returned:
  "candidate dumps_unused (chat_completion '' '') = Inr None
   \<and> ask_llm_for_answer dumps_unused (answering '' '') ''q'' [] =
       (''{}'', [attempt_body ''q'' 0, attempt_body ''q'' 1, attempt_body ''q'' 2])"
  by code_simp

text \<open>
  Claim C6, amended. One call of \<^verbatim>\<open>ask_llm_for_answer\<close> makes at most three
  attempts. Attempt \<open>k\<close> (from 0) sends the two opening messages followed by \<open>k\<close>
  times the user turn \<^verbatim>\<open>Return JSON now.\<close>, so the attempts form one growing
  conversation. An attempt returns the candidate text at once when the text is not
  blank, that is, has a character that is not white space; an attempt whose invocation
  raises, or whose text is blank, is followed by the next one; when no attempt returns,
  the result is the text \<^verbatim>\<open>{}\<close>. Each attempt posts its body one to three times.
\<close>
theorem ask_llm_for_answer_attempts:
  "ask_llm_for_answer dumps post prompt sent =
     (case attempt_once dumps post (attempt_body prompt 0) sent of
        (Some out, s1) \<Rightarrow> (out, s1)
      | (None, s1) \<Rightarrow>
         (case attempt_once dumps post (attempt_body prompt 1) s1 of
            (Some out, s2) \<Rightarrow> (out, s2)
          | (None, s2) \<Rightarrow>
             (case attempt_once dumps post (attempt_body prompt 2) s2 of
                (Some out, s3) \<Rightarrow> (out, s3)
              | (None, s3) \<Rightarrow> (''{}'', s3))))
   \<and> (attempt_once dumps post body sent = (Some out, s') \<longleftrightarrow>
        (\<exists>resp. call_aipipe_api post body sent = (Inr resp, s') \<and>
                candidate dumps resp = Inr (Some out)))
   \<and> (candidate dumps resp = Inr (Some out) \<longrightarrow> strip out \<noteq> [])
   \<and> candidate dumps (chat_completion t) = Inr (if strip t \<noteq> [] then Some t else None)
   \<and> (call_aipipe_api post body sent = (Inl e, s') \<longrightarrow>
        attempt_once dumps post body sent = (None, s'))
   \<and> (\<exists>k. 1 \<le> k \<and> k \<le> 3 \<and> snd (attempt_once dumps post body sent) = sent @ replicate k body)"
proof (intro conjI impI)
  show "ask_llm_for_answer dumps post prompt sent =
     (case attempt_once dumps post (attempt_body prompt 0) sent of
        (Some out, s1) \<Rightarrow> (out, s1)
      | (None, s1) \<Rightarrow>
         (case attempt_once dumps post (attempt_body prompt 1) s1 of
            (Some out, s2) \<Rightarrow> (out, s2)
          | (None, s2) \<Rightarrow>
             (case attempt_once dumps post (attempt_body prompt 2) s2 of
                (Some out, s3) \<Rightarrow> (out, s3)
              | (None, s3) \<Rightarrow> (''{}'', s3))))"
    unfolding ask_llm_for_answer_def range3 attempt_body_0[symmetric] by (rule ask_loop_unrolled)
next
  show "attempt_once dumps post body sent = (Some out, s') \<longleftrightarrow>
        (\<exists>resp. call_aipipe_api post body sent = (Inr resp, s') \<and>
                candidate dumps resp = Inr (Some out))"
    by (rule attempt_once_Some)
next
  assume "candidate dumps resp = Inr (Some out)"
  then show "strip out \<noteq> []" by (rule candidate_not_blank)
next
  show "candidate dumps (chat_completion t) = Inr (if strip t \<noteq> [] then Some t else None)"
    by (rule candidate_chat)
next
  assume "call_aipipe_api post body sent = (Inl e, s')"
  then show "attempt_once dumps post body sent = (None, s')" by (rule attempt_once_raise)
next
  show "\<exists>k. 1 \<le> k \<and> k \<le> 3 \<and> snd (attempt_once dumps post body sent) = sent @ replicate k body"
    unfolding attempt_once_snd by (rule call_aipipe_api_sent)
qed

theorem ask_llm_for_answer_attempts_witness:
  "ask_llm_for_answer dumps_unused (answering ''[1, 2]'') ''q'' [] = (''[1, 2]'', [attempt_body ''q'' 0])
   \<and> strip ''[1, 2]'' \<noteq> []
   \<and> attempt_once dumps_unused (failing (OtherError ''down'')) (attempt_body ''q'' 0) [] =
       (None, [attempt_body ''q'' 0, attempt_body ''q'' 0, attempt_body ''q'' 0])
   \<and> ask_llm_for_answer dumps_unused (failing (OtherError ''down'')) ''q'' [] =
       (''{}'', replicate 3 (attempt_body ''q'' 0) @ replicate 3 (attempt_body ''q'' 1)
              @ replicate 3 (attempt_body ''q'' 2))"
proof -
  let ?b = "attempt_body ''q''"
  have c: "call_aipipe_api (answering ''[1, 2]'') (?b 0) [] = (Inr (chat_completion ''[1, 2]''), [?b 0])"
    by code_simp
  have k: "candidate dumps_unused (chat_completion ''[1, 2]'') = Inr (Some ''[1, 2]'')"
    by code_simp
  have f0: "call_aipipe_api (failing (OtherError ''down'')) (?b 0) [] =
      (Inl (OtherError ''down''), [?b 0, ?b 0, ?b 0])"
    by code_simp
  have f1: "call_aipipe_api (failing (OtherError ''down'')) (?b 1) [?b 0, ?b 0, ?b 0] =
      (Inl (OtherError ''down''), [?b 0, ?b 0, ?b 0, ?b 1, ?b 1, ?b 1])"
    by code_simp
  have f2: "call_aipipe_api (failing (OtherError ''down'')) (?b 2) [?b 0, ?b 0, ?b 0, ?b 1, ?b 1, ?b 1] =
      (Inl (OtherError ''down''), [?b 0, ?b 0, ?b 0, ?b 1, ?b 1, ?b 1, ?b 2, ?b 2, ?b 2])"
    by code_simp
  note A = ask_llm_for_answer_attempts[where dumps = dumps_unused and post = "answering ''[1, 2]''"
      and prompt = "''q''" and sent = "[]" and body = "?b 0" and out = "''[1, 2]''" and s' = "[?b 0]"
      and resp = "chat_completion ''[1, 2]''"]
  note F0 = ask_llm_for_answer_attempts[where dumps = dumps_unused and post = "failing (OtherError ''down'')"
      and prompt = "''q''" and sent = "[]" and body = "?b 0" and e = "OtherError ''down''"
      and s' = "[?b 0, ?b 0, ?b 0]"]
  note F1 = ask_llm_for_answer_attempts[where dumps = dumps_unused and post = "failing (OtherError ''down'')"
      and sent = "[?b 0, ?b 0, ?b 0]" and body = "?b 1" and e = "OtherError ''down''"
      and s' = "[?b 0, ?b 0, ?b 0, ?b 1, ?b 1, ?b 1]"]
  note F2 = ask_llm_for_answer_attempts[where dumps = dumps_unused and post = "failing (OtherError ''down'')"
      and sent = "[?b 0, ?b 0, ?b 0, ?b 1, ?b 1, ?b 1]" and body = "?b 2" and e = "OtherError ''down''"
      and s' = "[?b 0, ?b 0, ?b 0, ?b 1, ?b 1, ?b 1, ?b 2, ?b 2, ?b 2]"]
  from A c k have a1: "attempt_once dumps_unused (answering ''[1, 2]'') (?b 0) [] = (Some ''[1, 2]'', [?b 0])"
    by blast
  from A k have a2: "strip ''[1, 2]'' \<noteq> []" by blast
  from F0 f0 have g0: "attempt_once dumps_unused (failing (OtherError ''down'')) (?b 0) [] =
      (None, [?b 0, ?b 0, ?b 0])" by blast
  from F1 f1 have g1: "attempt_once dumps_unused (failing (OtherError ''down'')) (?b 1) [?b 0, ?b 0, ?b 0] =
      (None, [?b 0, ?b 0, ?b 0, ?b 1, ?b 1, ?b 1])" by blast
  from F2 f2 have g2: "attempt_once dumps_unused (failing (OtherError ''down'')) (?b 2)
      [?b 0, ?b 0, ?b 0, ?b 1, ?b 1, ?b 1] =
      (None, [?b 0, ?b 0, ?b 0, ?b 1, ?b 1, ?b 1, ?b 2, ?b 2, ?b 2])" by blast
  from A a1 have r1: "ask_llm_for_answer dumps_unused (answering ''[1, 2]'') ''q'' [] = (''[1, 2]'', [?b 0])"
    by simp
  from F0 g0 g1 g2 have r2: "ask_llm_for_answer dumps_unused (failing (OtherError ''down'')) ''q'' [] =
       (''{}'', [?b 0, ?b 0, ?b 0, ?b 1, ?b 1, ?b 1, ?b 2, ?b 2, ?b 2])"
    by simp
  have rep: "replicate 3 (?b 0) @ replicate 3 (?b 1) @ replicate 3 (?b 2) =
      [?b 0, ?b 0, ?b 0, ?b 1, ?b 1, ?b 1, ?b 2, ?b 2, ?b 2]"
    by (simp add: numeral_3_eq_3)
  show ?thesis unfolding rep using r1 a2 g0 r2 by blast
qed

section \<open>Properties of the repair\<close>

lemma filter_dropWhile_not: "filter (\<lambda>c. \<not> P c) (dropWhile P cs) = filter (\<lambda>c. \<not> P c) cs"
  by (induction cs) simp_all

lemma re_sub_match_ctrl: "re_sub match_ctrl s = filter (\<lambda>c. \<not> code c < 0x20) s"
proof (induction "length s" arbitrary: s rule: less_induct)
  case less
  show ?case
  proof (cases s)
    case Nil
    then show ?thesis by simp
  next
    case (Cons c cs)
    show ?thesis
    proof (cases "code c < 0x20")
      case False
      then have "match_ctrl (c # cs) = None" by (simp add: match_ctrl_def)
      with False less.hyps[of cs] Cons show ?thesis by simp
    next
      case True
      let ?P = "\<lambda>c. code c < 0x20"
      from True have m: "match_ctrl (c # cs) = Some ([], Suc (length (takeWhile ?P cs)))"
        by (simp add: match_ctrl_def)
      have d: "drop (length (takeWhile ?P cs)) cs = dropWhile ?P cs"
        by (metis append_eq_conv_conj takeWhile_dropWhile_id)
      have "length (dropWhile ?P cs) < length s"
        unfolding Cons by (simp add: length_dropWhile_le less_Suc_eq_le)
      from less.hyps[OF this]
      have "re_sub match_ctrl (dropWhile ?P cs) = filter (\<lambda>c. \<not> ?P c) (dropWhile ?P cs)" .
      moreover have "filter (\<lambda>c. \<not> ?P c) cs = filter (\<lambda>c. \<not> ?P c) (dropWhile ?P cs)"
        by (rule filter_dropWhile_not[symmetric])
      ultimately show ?thesis unfolding Cons using True m d by simp
    qed
  qed
qed

lemma word_code: "is_word c \<Longrightarrow> 48 \<le> code c \<and> code c \<le> 122"
proof -
  assume w: "is_word c"
  have u: "code CHR ''_'' = 95" by code_simp
  from w consider "is_alpha c" | "is_digit c" | "c = CHR ''_''"
    unfolding is_word_def by blast
  then show ?thesis
  proof cases
    case 1
    then show ?thesis unfolding is_alpha_def Let_def by arith
  next
    case 2
    then show ?thesis unfolding is_digit_def Let_def by arith
  next
    case 3
    then show ?thesis using u by simp
  qed
qed

lemma word_not_space: "is_word c \<Longrightarrow> \<not> is_space c"
proof -
  assume "is_word c"
  then have "48 \<le> code c \<and> code c \<le> 122" by (rule word_code)
  then show ?thesis unfolding is_space_def Let_def by arith
qed

lemma re_sub_trailing_comma:
  assumes "list_all is_space ws" and "\<not> is_space cl"
  shows "re_sub (match_trailing_comma cl) ('','' @ ws @ cl # rest) =
           cl # re_sub (match_trailing_comma cl) rest"
proof -
  have t: "takeWhile is_space (ws @ cl # rest) = ws"
    using assms by (rule takeWhile_run)
  have "match_trailing_comma cl (CHR '','' # ws @ cl # rest) = Some ([cl], length ws + 2)"
    by (simp add: match_trailing_comma_def startswith_def t)
  then show ?thesis by simp
qed

lemma re_sub_bare_key:
  assumes "c = CHR ''{'' \<or> c = CHR '',''" and "list_all is_space ws1"
    and "ident \<noteq> []" and "list_all is_word ident" and "list_all is_space ws2"
  shows "re_sub match_bare_key (c # ws1 @ ident @ ws2 @ '':'' @ rest) =
           [c, CHR '' '', CHR 0x22] @ ident @ [CHR 0x22, CHR '':''] @ re_sub match_bare_key rest"
proof -
  let ?s = "c # ws1 @ ident @ ws2 @ '':'' @ rest"
  obtain i is' where i: "ident = i # is'" using assms(3) by (cases ident) auto
  have ns: "\<not> is_space CHR '':''" "\<not> is_word CHR '':''" by code_simp+
  have "\<not> is_space i" using assms(4) i by (simp add: word_not_space)
  then have w1: "takeWhile is_space (ws1 @ ident @ ws2 @ '':'' @ rest) = ws1"
    unfolding i using assms(2) by (simp add: takeWhile_run)
  have nw: "takeWhile is_word (ws2 @ '':'' @ rest) = []"
  proof (cases ws2)
    case Nil
    then show ?thesis using ns by simp
  next
    case (Cons a as)
    with assms(5) have "is_space a" by simp
    then have "\<not> is_word a" using word_not_space by blast
    with Cons show ?thesis by simp
  qed
  have id: "takeWhile is_word (ident @ ws2 @ '':'' @ rest) = ident"
    using assms(4) nw by (simp add: takeWhile_append2 list_all_iff)
  have w2: "takeWhile is_space (ws2 @ '':'' @ rest) = ws2"
    using assms(5) ns(1) by (simp add: takeWhile_run)
  have sw: "startswith ?s ''{'' \<or> startswith ?s '',''"
    using assms(1) by (auto simp: startswith_def)
  have d1: "drop 1 ?s = ws1 @ ident @ ws2 @ '':'' @ rest" by simp
  have r1: "drop (1 + length ws1) ?s = ident @ ws2 @ '':'' @ rest" by simp
  have r2: "drop (length ident) (ident @ ws2 @ '':'' @ rest) = ws2 @ '':'' @ rest" by simp
  have co: "startswith (drop (length ws2) (ws2 @ '':'' @ rest)) '':''"
    by (simp add: startswith_def)
  have t1: "take 1 ?s = [c]" by simp
  have "match_bare_key ?s =
      Some ([c, CHR '' '', CHR 0x22] @ ident @ [CHR 0x22, CHR '':''],
            1 + length ws1 + length ident + length ws2 + 1)"
    unfolding match_bare_key_def Let_def d1 w1 r1 id r2 w2 t1
    using sw co assms(3) by simp
  moreover have "drop (1 + length ws1 + length ident + length ws2 + 1 - 1)
      (ws1 @ ident @ ws2 @ '':'' @ rest) = rest" by simp
  ultimately show ?thesis by (simp del: append.simps drop_append add: re_sub.simps)
qed


text \<open>
  Claim C8. \<^verbatim>\<open>repair_json_string\<close> parses the text it gets by stripping the ends,
  deleting every control character, replacing a comma (and white space) in front of
  \<^verbatim>\<open>}\<close> or \<^verbatim>\<open>]\<close> by that character, and putting in double quotes an
  identifier of letters, digits and underscores that stands between \<^verbatim>\<open>{\<close> or a
  comma and a colon. It recovers \<^verbatim>\<open>{"a":1,}\<close> to \<^verbatim>\<open>{a: 1}\<close> and
  \<^verbatim>\<open>{a: 1, b: "x"}\<close> to \<^verbatim>\<open>{a: 1, b: "x"}\<close>, also when bare keys, trailing
  commas and control characters come together.
\<close>
theorem repair_json_string_recovers: \<open>
  repair_json_string ''{"a":1,}'' = PDict [(''a'', PInt 1)]
  \<and> repair_json_string ''{a: 1, b: "x"}'' = PDict [(''a'', PInt 1), (''b'', PStr ''x'')]
  \<and> repair_json_string
        (''{a:'' @ [CHR 0x01] @ '' 1,'' @ [CHR 0x0A] @ '' b: "x",'' @ [CHR 0x09] @ ''}'' @ [CHR 0x0A])
      = PDict [(''a'', PInt 1), (''b'', PStr ''x'')]
  \<and> repair_json_string ''{items: [1, 2, ], ok: true, }''
      = PDict [(''items'', PList [PInt 1, PInt 2]), (''ok'', PBool True)]
  \<and> repair_json_string text =
      (case json_loads
              (re_sub match_bare_key
                (re_sub (match_trailing_comma (CHR '']''))
                  (re_sub (match_trailing_comma (CHR ''}''))
                    (filter (\<lambda>c. \<not> code c < 0x20) (strip text))))) of
         Some v \<Rightarrow> v
       | None \<Rightarrow> PNone)
  \<and> (list_all is_space ws \<longrightarrow>
       re_sub (match_trailing_comma (CHR ''}'')) ('','' @ ws @ ''}'' @ rest) =
         ''}'' @ re_sub (match_trailing_comma (CHR ''}'')) rest)
  \<and> (list_all is_space ws \<longrightarrow>
       re_sub (match_trailing_comma (CHR '']'')) ('','' @ ws @ '']'' @ rest) =
         '']'' @ re_sub (match_trailing_comma (CHR '']'')) rest)
  \<and> ((c = CHR ''{'' \<or> c = CHR '','') \<and> list_all is_space wsa \<and> ident \<noteq> [] \<and>
       list_all is_word ident \<and> list_all is_space wsb \<longrightarrow>
       re_sub match_bare_key (c # wsa @ ident @ wsb @ '':'' @ rest) =
         [c, CHR '' '', CHR 0x22] @ ident @ [CHR 0x22, CHR '':''] @ re_sub match_bare_key rest)\<close>
proof (intro conjI impI)
  show \<open>repair_json_string ''{"a":1,}'' = PDict [(''a'', PInt 1)]\<close>
    by code_simp
  show \<open>repair_json_string ''{a: 1, b: "x"}'' = PDict [(''a'', PInt 1), (''b'', PStr ''x'')]\<close>
    by code_simp
  show \<open>repair_json_string
        (''{a:'' @ [CHR 0x01] @ '' 1,'' @ [CHR 0x0A] @ '' b: "x",'' @ [CHR 0x09] @ ''}'' @ [CHR 0x0A])
      = PDict [(''a'', PInt 1), (''b'', PStr ''x'')]\<close>
    by code_simp
  show \<open>repair_json_string ''{items: [1, 2, ], ok: true, }''
      = PDict [(''items'', PList [PInt 1, PInt 2]), (''ok'', PBool True)]\<close>
    by code_simp
  show "repair_json_string text =
      (case json_loads
              (re_sub match_bare_key
                (re_sub (match_trailing_comma (CHR '']''))
                  (re_sub (match_trailing_comma (CHR ''}''))
                    (filter (\<lambda>c. \<not> code c < 0x20) (strip text))))) of
         Some v \<Rightarrow> v
       | None \<Rightarrow> PNone)"
    by (simp add: repair_json_string_def fix_text_def re_sub_match_ctrl)
next
  assume "list_all is_space ws"
  moreover have "\<not> is_space CHR ''}''" by code_simp
  ultimately show "re_sub (match_trailing_comma (CHR ''}'')) ('','' @ ws @ ''}'' @ rest) =
         ''}'' @ re_sub (match_trailing_comma (CHR ''}'')) rest"
    using re_sub_trailing_comma[of ws "CHR ''}''" rest] by simp
next
  assume "list_all is_space ws"
  moreover have "\<not> is_space CHR '']''" by code_simp
  ultimately show "re_sub (match_trailing_comma (CHR '']'')) ('','' @ ws @ '']'' @ rest) =
         '']'' @ re_sub (match_trailing_comma (CHR '']'')) rest"
    using re_sub_trailing_comma[of ws "CHR '']''" rest] by simp
next
  assume "(c = CHR ''{'' \<or> c = CHR '','') \<and> list_all is_space wsa \<and> ident \<noteq> [] \<and>
       list_all is_word ident \<and> list_all is_space wsb"
  then show "re_sub match_bare_key (c # wsa @ ident @ wsb @ '':'' @ rest) =
         [c, CHR '' '', CHR 0x22] @ ident @ [CHR 0x22, CHR '':''] @ re_sub match_bare_key rest"
    by (intro re_sub_bare_key) simp_all
qed

theorem repair_json_string_recovers_witness: \<open>
  re_sub (match_trailing_comma (CHR ''}'')) '', }'' = ''}''
  \<and> re_sub (match_trailing_comma (CHR '']'')) '', ]'' = '']''
  \<and> re_sub match_bare_key ''{ key_1 : 1}'' = ''{ "key_1": 1}''\<close>
proof -
  have h: "list_all is_space '' ''" "list_all is_word ''key_1''" "''key_1'' \<noteq> []"
    by code_simp+
  have r: "re_sub match_bare_key '' 1}'' = '' 1}''"
    "re_sub (match_trailing_comma (CHR ''}'')) [] = []"
    "re_sub (match_trailing_comma (CHR '']'')) [] = []"
    by code_simp+
  note T = repair_json_string_recovers[where ws = "'' ''" and rest = "[]"]
  note K = repair_json_string_recovers[where c = "CHR ''{''" and wsa = "'' ''" and ident = "''key_1''"
      and wsb = "'' ''" and rest = "'' 1}''"]
  from T h(1) have 1: "re_sub (match_trailing_comma (CHR ''}'')) ('','' @ '' '' @ ''}'' @ []) =
         ''}'' @ re_sub (match_trailing_comma (CHR ''}'')) []" by blast
  from T h(1) have 2: "re_sub (match_trailing_comma (CHR '']'')) ('','' @ '' '' @ '']'' @ []) =
         '']'' @ re_sub (match_trailing_comma (CHR '']'')) []" by blast
  from K h have 3: "re_sub match_bare_key (CHR ''{'' # '' '' @ ''key_1'' @ '' '' @ '':'' @ '' 1}'') =
         [CHR ''{'', CHR '' '', CHR 0x22] @ ''key_1'' @ [CHR 0x22, CHR '':''] @ re_sub match_bare_key '' 1}''"
    by blast
  show ?thesis using 1 2 3 unfolding r by simp
qed


section \<open>Properties of \<^verbatim>\<open>llm_json\<close>\<close>

lemma parse_answer_fallback:
  "json_loads t = None \<Longrightarrow> \<not> truthy (try_extract_json t) \<Longrightarrow> \<not> truthy (repair_json_string t) \<Longrightarrow>
   parse_answer t = PDict []"
  by (simp add: parse_answer_def)

lemma llm_json_provider_down: "fst (llm_json dumps (failing e) prompt sent) = PDict []"
proof -
  have c: "call_aipipe_api (failing e) body s = (Inl e, s @ [body, body, body])" for body s
    by (simp add: call_aipipe_api_def range3 failing_def)
  have a: "attempt_once dumps (failing e) body s = (None, s @ [body, body, body])" for body s
    by (rule attempt_once_raise) (rule c)
  have "fst (ask_loop dumps (failing e) [0, 1, 2] (initial_body prompt) sent) = ''{}''"
    by (simp add: a)
  then have t: "fst (ask_llm_for_answer dumps (failing e) prompt sent) = ''{}''"
    by (simp only: ask_llm_for_answer_def range3)
  have p: "parse_answer ''{}'' = PDict []" by code_simp
  obtain reply s' where r: "ask_llm_for_answer dumps (failing e) prompt sent = (reply, s')"
    by (cases "ask_llm_for_answer dumps (failing e) prompt sent")
  with t have "reply = ''{}''" by simp
  with r p show ?thesis by (simp add: llm_json_def)
qed

text \<open>
  Claim C1 says that \<^verbatim>\<open>llm_json\<close> always returns a mapping. It returns what
  \<^verbatim>\<open>json.loads\<close> gives for the text, or for the repaired text, whatever its type:
  for the model answers \<^verbatim>\<open>[1, 2]\<close>, \<^verbatim>\<open>42\<close> and \<^verbatim>\<open>[1, 2,]\<close> the result is a
  list, an integer and a list.
\<close>
theorem llm_json_returns_non_mapping:
  "llm_json dumps_unused (answering ''[1, 2]'') ''q'' [] = (PList [PInt 1, PInt 2], [attempt_body ''q'' 0])
   \<and> llm_json dumps_unused (answering ''42'') ''q'' [] = (PInt 42, [attempt_body ''q'' 0])
   \<and> llm_json dumps_unused (answering ''[1, 2,]'') ''q'' [] = (PList [PInt 1, PInt 2], [attempt_body ''q'' 0])"
  by code_simp

section \<open>Properties of the service endpoint\<close>

lemma json_response_strings [simp]:
  "json_response c [(k, PStr a), (k', PStr b)] = Inr (JSONResponse c [(k, PStr a), (k', PStr b)])"
  by (simp add: json_response_def)












end
